theory Spec2Isabelle
  imports Complex_Main "HOL-Library.Multiset" "HOL-Library.Sublist"
begin

section \<open>Data model of asciinema\_edit.py\<close>

text \<open>
  A cast file is a header line followed by one JSON array \<open>[timestamp, kind, data]\<close> per
  event. \<open>Recording.__init__\<close> keeps the stripped header and the parsed event arrays in
  \<open>self.header\<close> and \<open>self.body\<close>.

  Timestamps are Python floats, that is IEEE 754 double-precision numbers. A finite double
  is modelled by its exact real value, and the sums and differences that \<open>renormalize\<close>
  and \<open>quantize\<close> compute are rounded to the nearest double as the machine does (see
  \<open>round_to_double\<close> below). The model covers recordings whose timestamps are finite
  doubles, and it follows the program as long as no sum or difference reaches \<open>2\<^sup>1\<^sup>0\<^sup>2\<^sup>4\<close>
  in magnitude, where the machine produces an infinity. Infinities and NaN, and timestamps
  that are JSON integers of magnitude \<open>2\<^sup>5\<^sup>3\<close> or more (on which Python computes exactly,
  or raises OverflowError when it converts them), are outside the model.

  Events are modelled by value. In the program each event is a list object of its own
  (\<open>json.loads\<close> builds a fresh one per line); the methods update these objects in place.
  The value model agrees with the program as long as no event object occurs twice in
  \<open>self.body\<close>, which is the case for every method embedded here except \<open>excise\<close> called
  with index ranges that overlap or end before they start.
\<close>

record event =
  timestamp :: real
  kind :: string
  data :: string

record recording =
  header :: string
  body :: "event list"

text \<open>
  A method that can raise returns \<open>Inl\<close> of the exception or \<open>Inr\<close> of the recording it
  leaves behind. An \<open>Inl\<close> result does not record how far the method had got.
\<close>

datatype error = IndexError | TypeError | AssertionError | ZeroDivisionError | UnboundLocalError

subsection \<open>Double-precision arithmetic\<close>

text \<open>
  \<open>round_half_even\<close> rounds to the nearest integer, a tie going to the even neighbour.
\<close>

definition round_half_even :: "real \<Rightarrow> int" where
  "round_half_even x =
     (let f = \<lfloor>x\<rfloor>; d = x - of_int f
      in if d < 1 / 2 then f else if 1 / 2 < d then f + 1 else if even f then f else f + 1)"

text \<open>
  \<open>bit_length n\<close> is the number of binary digits of \<open>n\<close>, and \<open>exponent x\<close> is the
  integer \<open>e\<close> with \<open>2\<^sup>e \<le> |x| < 2\<^sup>e\<^sup>+\<^sup>1\<close> for \<open>x \<noteq> 0\<close>.
\<close>

fun bit_length :: "nat \<Rightarrow> nat" where
  "bit_length n = (if n = 0 then 0 else Suc (bit_length (n div 2)))"

declare bit_length.simps [simp del]

definition exponent :: "real \<Rightarrow> int" where
  "exponent x =
     (if 1 \<le> \<bar>x\<bar> then int (bit_length (nat \<lfloor>\<bar>x\<bar>\<rfloor>)) - 1
      else - int (bit_length (nat (\<lceil>1 / \<bar>x\<bar>\<rceil> - 1))))"

text \<open>
  A double has a significand of 53 bits and a spacing of at least \<open>2\<^sup>-\<^sup>1\<^sup>0\<^sup>7\<^sup>4\<close> (the
  subnormal numbers). \<open>round_to_double x\<close> is the double nearest to \<open>x\<close>, a tie going to
  the even significand: it is the value of a JSON number or of \<open>float\<close> of a decimal, and
  \<open>a + b\<close> and \<open>a - b\<close> on floats are \<open>round_to_double\<close> of the exact sum and
  difference. A result of magnitude \<open>2\<^sup>1\<^sup>0\<^sup>2\<^sup>4\<close> or more, which the machine turns into an
  infinity, is left as it is.
\<close>

definition round_to_double :: "real \<Rightarrow> real" where
  "round_to_double x =
     (if x = 0 then 0
      else let q = max (exponent x - 52) (- 1074)
           in of_int (round_half_even (x / 2 powi q)) * 2 powi q)"

definition float_add :: "real \<Rightarrow> real \<Rightarrow> real" where
  "float_add a b = round_to_double (a + b)"

definition float_sub :: "real \<Rightarrow> real \<Rightarrow> real" where
  "float_sub a b = round_to_double (a - b)"

text \<open>
  The bound on the error of one rounding used below: a relative error of \<open>2\<^sup>-\<^sup>5\<^sup>3\<close>, or
  half the spacing of the subnormal numbers.
\<close>

definition ulp_bound :: "real \<Rightarrow> real" where
  "ulp_bound x = \<bar>x\<bar> / 2 ^ 53 + 1 / 2 ^ 1075"

subsection \<open>renormalize\<close>

text \<open>
  \<^verbatim>\<open>first_start = self.body[0][0]\<close> raises IndexError on an empty body; otherwise every
  line has \<open>first_start\<close> subtracted from its timestamp (a subtraction of floats).
\<close>

definition shift_line :: "real \<Rightarrow> event \<Rightarrow> event" where
  "shift_line first_start line = line\<lparr>timestamp := float_sub (timestamp line) first_start\<rparr>"

definition renormalize :: "recording \<Rightarrow> error + recording" where
  "renormalize r =
     (case body r of
        [] \<Rightarrow> Inl IndexError
      | e # _ \<Rightarrow> Inr (r\<lparr>body := map (shift_line (timestamp e)) (body r)\<rparr>))"

subsection \<open>Python list slices\<close>

text \<open>
  \<open>xs[lo:hi]\<close> and \<open>xs[lo:hi] = new\<close> for indices that are not negative. Indices beyond
  the end are clipped, and a slice that ends before it starts is empty (an assignment to it
  inserts at \<open>lo\<close>).
\<close>

definition py_slice :: "nat \<Rightarrow> nat \<Rightarrow> 'a list \<Rightarrow> 'a list" where
  "py_slice lo hi xs = drop lo (take hi xs)"

definition py_slice_assign :: "nat \<Rightarrow> nat \<Rightarrow> 'a list \<Rightarrow> 'a list \<Rightarrow> 'a list" where
  "py_slice_assign lo hi new xs = take lo xs @ new @ drop (max lo hi) xs"

text \<open>An index that may be negative counts from the end and is clipped to the list.\<close>

definition py_index :: "int \<Rightarrow> nat \<Rightarrow> nat" where
  "py_index i n = (if i < 0 then nat (max 0 (int n + i)) else min (nat i) n)"

definition py_slice_int :: "int \<Rightarrow> int \<Rightarrow> 'a list \<Rightarrow> 'a list" where
  "py_slice_int lo hi xs = py_slice (py_index lo (length xs)) (py_index hi (length xs)) xs"

subsection \<open>write\<close>

text \<open>
  \<open>round(x, 7)\<close> on a float takes the exact value of \<open>x\<close> to the nearest multiple of
  \<open>10\<^sup>-\<^sup>7\<close>, a tie going to the even multiple, and returns the double nearest to that
  decimal; \<open>float\<close> of a float changes nothing. (On an integer timestamp \<open>round\<close>
  changes nothing and \<open>float\<close> converts, which is the same value for the integers of the
  model.)
\<close>

definition py_round7 :: "real \<Rightarrow> real" where
  "py_round7 x = round_to_double (of_int (round_half_even (x * 10 ^ 7)) / 10 ^ 7)"

definition round_event :: "event \<Rightarrow> event" where
  "round_event event = event\<lparr>timestamp := py_round7 (timestamp event)\<rparr>"

text \<open>
  \<open>write\<close> returns the recording as it is left in memory and what is written: the header
  line and the events of \<open>self.body[startidx:endidx]\<close> (their JSON encoding and the output
  file are not modelled). \<open>endidx\<close> is \<open>None\<close> by default; \<open>not endidx\<close> also holds for 0.
\<close>

definition write_file :: "recording \<Rightarrow> int \<Rightarrow> int option \<Rightarrow> recording \<times> string \<times> event list" where
  "write_file r startidx endidx =
     (let endidx' = (case endidx of
                       None \<Rightarrow> int (length (body r))
                     | Some n \<Rightarrow> if n = 0 then int (length (body r)) else n);
          rounded = map round_event (body r);
          outlines = py_slice_int startidx endidx' rounded
      in (r\<lparr>body := rounded\<rparr>, header r, outlines))"

subsection \<open>parse\_ranges\_to\_indices\<close>

text \<open>
  \<open>bisect.bisect_left\<close> of the Python standard library is the binary search
  \<^verbatim>\<open>while lo < hi: mid = (lo + hi) // 2; if a[mid] < x: lo = mid + 1 else: hi = mid\<close>
  started at \<open>lo = 0\<close>, \<open>hi = len(a)\<close>; it returns \<open>lo\<close>.
\<close>

function bisect_left_loop :: "real list \<Rightarrow> real \<Rightarrow> nat \<Rightarrow> nat \<Rightarrow> nat" where
  "bisect_left_loop a x lo hi =
     (if lo < hi then
        (if a ! ((lo + hi) div 2) < x
         then bisect_left_loop a x ((lo + hi) div 2 + 1) hi
         else bisect_left_loop a x lo ((lo + hi) div 2))
      else lo)"
  by pat_completeness auto
termination
  by (relation "measure (\<lambda>(a, x, lo, hi). hi - lo)") auto

declare bisect_left_loop.simps [simp del]

definition bisect_left :: "real list \<Rightarrow> real \<Rightarrow> nat" where
  "bisect_left a x = bisect_left_loop a x 0 (length a)"

text \<open>\<open>sorted(idx_ranges, key=lambda tup: tup[0])\<close> is a stable sort, as \<open>sort_key\<close> is.\<close>

definition parse_ranges_to_indices :: "recording \<Rightarrow> (real \<times> real) list \<Rightarrow> (nat \<times> nat) list" where
  "parse_ranges_to_indices r ranges =
     (let timestamps = map timestamp (body r);
          idx_ranges = map (\<lambda>(starttime, endtime).
                         (bisect_left timestamps starttime, bisect_left timestamps endtime)) ranges
      in sort_key fst idx_ranges)"

text \<open>
  The reading of the specification: \<open>i\<close> is the leftmost insertion point of \<open>x\<close> in
  \<open>ts\<close> when every entry before position \<open>i\<close> is below \<open>x\<close> and every entry from
  position \<open>i\<close> on is at least \<open>x\<close>.
\<close>

definition leftmost_insertion_point :: "real list \<Rightarrow> real \<Rightarrow> nat \<Rightarrow> bool" where
  "leftmost_insertion_point ts x i \<longleftrightarrow>
     i \<le> length ts \<and> list_all (\<lambda>t. t < x) (take i ts) \<and> list_all (\<lambda>t. x \<le> t) (drop i ts)"

subsection \<open>quantize\<close>

text \<open>
  The deltas are computed from the list \<open>timestamps\<close> that is built before any event is
  changed, each as the smaller of \<open>max_delay\<close> and a difference of floats. The second
  loop then rewrites the events from index 1 on, each as the float sum of its (already
  rewritten) predecessor and its delta.
\<close>

definition quantize_deltas :: "real \<Rightarrow> real list \<Rightarrow> real list" where
  "quantize_deltas max_delay timestamps =
     0 # map (\<lambda>i. min max_delay (float_sub (timestamps ! (i + 1)) (timestamps ! i)))
             [0..<length timestamps - 1]"

definition quantize_step :: "real list \<Rightarrow> nat \<Rightarrow> event list \<Rightarrow> event list" where
  "quantize_step deltas idx b =
     b[idx := (b ! idx)\<lparr>timestamp := float_add (timestamp (b ! (idx - 1))) (deltas ! idx)\<rparr>]"

definition quantize :: "recording \<Rightarrow> real \<Rightarrow> recording" where
  "quantize r max_delay =
     (let timestamps = map timestamp (body r);
          deltas = quantize_deltas max_delay timestamps
      in r\<lparr>body := fold (quantize_step deltas) [1..<length (body r)] (body r)\<rparr>)"

subsection \<open>speed\<close>

text \<open>
  What is claimed of \<open>speed\<close> is claimed up to rounding. Its differences, products and sums
  are therefore the exact ones: this subsection is the reading of the method in which no
  operation rounds.
\<close>

definition speed_deltas :: "real list \<Rightarrow> real list" where
  "speed_deltas timestamps =
     0 # map (\<lambda>i. timestamps ! (i + 1) - timestamps ! i) [0..<length timestamps - 1]"

definition scale_range :: "real \<Rightarrow> nat \<times> nat \<Rightarrow> real list \<Rightarrow> real list" where
  "scale_range speedup idx_range deltas =
     (case idx_range of (startidx, endidx) \<Rightarrow>
        py_slice_assign startidx endidx
          (map (\<lambda>delt. delt * speedup) (py_slice startidx endidx deltas)) deltas)"

definition adjust_step :: "real list \<Rightarrow> nat \<Rightarrow> event list \<Rightarrow> event list" where
  "adjust_step deltas idx b =
     b[idx := (b ! idx)\<lparr>timestamp := timestamp (b ! (idx - 1)) + deltas ! idx\<rparr>]"



subsection \<open>keep\<close>

text \<open>
  The first statement is \<^verbatim>\<open>assert len(ranges == 1), "Keep only takes one range"\<close>.
  \<open>ranges == 1\<close> compares a list with an integer, which is \<open>False\<close> for every list, and
  \<open>len\<close> of a \<open>bool\<close> raises TypeError.
\<close>

definition py_list_eq_int :: "'a list \<Rightarrow> int \<Rightarrow> bool" where
  "py_list_eq_int xs n = False"

definition py_len_bool :: "bool \<Rightarrow> error + nat" where
  "py_len_bool b = Inl TypeError"

definition keep :: "recording \<Rightarrow> (real \<times> real) list \<Rightarrow> error + recording" where
  "keep r ranges =
     (case py_len_bool (py_list_eq_int ranges 1) of
        Inl e \<Rightarrow> Inl e
      | Inr n \<Rightarrow>
          if n = 0 then Inl AssertionError
          else
            (case ranges of
               [] \<Rightarrow> Inl IndexError
             | (starttime, endtime) # _ \<Rightarrow>
                 let timestamps = map timestamp (body r);
                     startidx = bisect_left timestamps starttime;
                     endidx = bisect_left timestamps endtime;
                     r' = r\<lparr>body := py_slice startidx (endidx + 1) (body r)\<rparr>
                 in (case renormalize r' of
                       Inl e \<Rightarrow> Inl e
                     | Inr r'' \<Rightarrow> Inr (quantize r'' 1))))"

subsection \<open>excise\<close>

text \<open>
  \<open>idx_ranges[0]\<close> raises IndexError when no range is given. \<open>new_body\<close> starts as
  \<open>self.body[:idx_ranges[0][0]]\<close>, the loop appends \<open>self.body[idx_ranges[i][1] :
  idx_ranges[i + 1][0]]\<close> for \<open>i\<close> from 0, and \<open>self.body[idx_ranges[-1][1]:]\<close> comes last.
\<close>

definition excise_body :: "(nat \<times> nat) list \<Rightarrow> event list \<Rightarrow> event list" where
  "excise_body idx_ranges b =
     fold (\<lambda>i new_body. new_body @ py_slice (snd (idx_ranges ! i)) (fst (idx_ranges ! (i + 1))) b)
          [0..<length idx_ranges - 1]
          (take (fst (idx_ranges ! 0)) b)
     @ drop (snd (last idx_ranges)) b"

definition excise :: "recording \<Rightarrow> (real \<times> real) list \<Rightarrow> error + recording" where
  "excise r ranges =
     (let idx_ranges = parse_ranges_to_indices r ranges
      in if idx_ranges = [] then Inl IndexError
         else
           let r' = r\<lparr>body := excise_body idx_ranges (body r)\<rparr>
           in (case renormalize r' of
                 Inl e \<Rightarrow> Inl e
               | Inr r'' \<Rightarrow> Inr (quantize r'' 1)))"

text \<open>
  The reading of the specification. Index ranges are sorted and non-overlapping when each
  starts no later than it ends and ends no later than the next one starts. The retained
  segments are everything before the first range's start, for each adjacent pair of ranges
  everything between the end of one and the start of the next, and everything after the
  last range's end.
\<close>

fun sorted_nonoverlapping :: "(nat \<times> nat) list \<Rightarrow> bool" where
  "sorted_nonoverlapping [] = True"
| "sorted_nonoverlapping [(s, e)] = (s \<le> e)"
| "sorted_nonoverlapping ((s1, e1) # (s2, e2) # rest) =
     (s1 \<le> e1 \<and> e1 \<le> s2 \<and> sorted_nonoverlapping ((s2, e2) # rest))"

fun between_ranges :: "(nat \<times> nat) list \<Rightarrow> 'a list \<Rightarrow> 'a list" where
  "between_ranges ((s1, e1) # (s2, e2) # rest) b =
     py_slice e1 s2 b @ between_ranges ((s2, e2) # rest) b"
| "between_ranges _ b = []"

definition retained_segments :: "(nat \<times> nat) list \<Rightarrow> 'a list \<Rightarrow> 'a list" where
  "retained_segments idx_ranges b =
     take (fst (hd idx_ranges)) b @ between_ranges idx_ranges b @ drop (snd (last idx_ranges)) b"

subsection \<open>del\_in\_word\<close>

text \<open>
  A payload is a Python \<open>str\<close>, modelled as the list of its code points; a \<open>char\<close> stands
  for a code point below 256 (not for a byte of an encoding), so payloads are taken from
  the Latin-1 range. \<open>isalnum_char\<close> is \<open>str.isalnum\<close> on a string of one such code point:
  the ASCII digits and letters, and the letters and numeric characters of the upper half
  (U+00AA, U+00B2, U+00B3, U+00B5, U+00B9, U+00BA, U+00BC to U+00BE, and U+00C0 to U+00FF
  without the signs U+00D7 and U+00F7). \<open>str.isalnum\<close> holds for a non-empty string of
  such characters.
\<close>

definition isalnum_char :: "char \<Rightarrow> bool" where
  "isalnum_char c \<longleftrightarrow>
     (let n = (of_char c :: nat)
      in (48 \<le> n \<and> n \<le> 57) \<or> (65 \<le> n \<and> n \<le> 90) \<or> (97 \<le> n \<and> n \<le> 122)
         \<or> n = 170 \<or> n = 178 \<or> n = 179 \<or> n = 181 \<or> n = 185 \<or> n = 186
         \<or> (188 \<le> n \<and> n \<le> 190) \<or> (192 \<le> n \<and> n \<le> 214)
         \<or> (216 \<le> n \<and> n \<le> 246) \<or> (248 \<le> n \<and> n \<le> 255))"

definition isalnum :: "string \<Rightarrow> bool" where
  "isalnum s \<longleftrightarrow> s \<noteq> [] \<and> list_all isalnum_char s"

text \<open>\<open>del xs[k]\<close>, and the loop that runs it \<open>n\<close> times at the same index.\<close>

definition del_at :: "nat \<Rightarrow> 'a list \<Rightarrow> error + 'a list" where
  "del_at k xs = (if k < length xs then Inr (take k xs @ drop (Suc k) xs) else Inl IndexError)"

fun del_repeat :: "nat \<Rightarrow> nat \<Rightarrow> 'a list \<Rightarrow> error + 'a list" where
  "del_repeat 0 k xs = Inr xs"
| "del_repeat (Suc n) k xs =
     (case del_at k xs of Inl e \<Rightarrow> Inl e | Inr xs' \<Rightarrow> del_repeat n k xs')"

text \<open>
  The method initialises \<open>word_start_i\<close> but reads and writes \<open>word_start\<close>, which is
  unbound until the first character of a word is seen (\<open>None\<close> here).
\<close>

definition del_word_events :: "string \<Rightarrow> nat option \<Rightarrow> event list \<Rightarrow> error + event list" where
  "del_word_events word word_start b =
     (case word_start of
        None \<Rightarrow> Inl UnboundLocalError
      | Some k \<Rightarrow> del_repeat (length word) k b)"

lemma del_repeat_length:
  "del_repeat n k xs = Inr ys \<Longrightarrow> length ys + n = length xs"
  by (induction n arbitrary: xs) (auto simp: del_at_def split: if_splits)

lemma del_word_events_length:
  "del_word_events word word_start b = Inr b' \<Longrightarrow> length b' \<le> length b"
  by (auto simp: del_word_events_def split: option.splits dest: del_repeat_length)

text \<open>
  The \<open>for\<close> loop over \<open>enumerate(self.body)\<close> reads \<open>self.body[i]\<close> for \<open>i = 0, 1, \<dots>\<close> and
  stops as soon as \<open>i\<close> is no index of the list as it is at that moment; deleting events
  inside the loop shortens the list under the iterator.
\<close>

function del_in_word_loop ::
  "string \<Rightarrow> nat \<Rightarrow> string \<Rightarrow> nat option \<Rightarrow> event list \<Rightarrow> error + event list" where
  "del_in_word_loop to_delete i word word_start b =
     (if i < length b then
        (if kind (b ! i) = ''i'' \<and> isalnum (data (b ! i)) then
           del_in_word_loop to_delete (i + 1) (word @ data (b ! i))
             (if word = [] then Some i else word_start) b
         else if word \<noteq> [] then
           (if word = to_delete then
              (case del_word_events word word_start b of
                 Inl e \<Rightarrow> Inl e
               | Inr b' \<Rightarrow> del_in_word_loop to_delete (i + 1) [] word_start b')
            else del_in_word_loop to_delete (i + 1) [] word_start b)
         else del_in_word_loop to_delete (i + 1) word word_start b)
      else Inr b)"
  by pat_completeness auto
termination
proof (relation "measure (\<lambda>(to_delete, i, word, word_start, b). length b - i)")
  fix to_delete :: string and i :: nat and word :: string and word_start :: "nat option"
    and b b' :: "event list"
  assume "i < length b" "del_word_events word word_start b = Inr b'"
  then show "((to_delete, i + 1, [], word_start, b'), (to_delete, i, word, word_start, b))
             \<in> measure (\<lambda>(to_delete, i, word, word_start, b). length b - i)"
    using del_word_events_length [of word word_start b b'] by simp
qed auto

declare del_in_word_loop.simps [simp del]

definition del_in_word :: "recording \<Rightarrow> string \<Rightarrow> error + recording" where
  "del_in_word r to_delete =
     (case del_in_word_loop to_delete 0 [] None (body r) of
        Inl e \<Rightarrow> Inl e
      | Inr b \<Rightarrow> Inr (r\<lparr>body := b\<rparr>))"

text \<open>
  The reading of the specification: a word is built from Input events whose payload is
  alphanumeric, and each such event is taken to carry one character.
\<close>

definition word_event :: "event \<Rightarrow> bool" where
  "word_event e \<longleftrightarrow> kind e = ''i'' \<and> isalnum (data e)"

definition single_characters :: "event list \<Rightarrow> bool" where
  "single_characters b \<longleftrightarrow> list_all (\<lambda>e. word_event e \<longrightarrow> length (data e) = 1) b"

subsection \<open>Sample recordings\<close>

text \<open>
  A timestamp written as a decimal is the double nearest to it, as \<open>json.loads\<close> reads
  it. The first recording is the fixture of the test suite (its header line abbreviated).
\<close>

definition fixture :: recording where
  "fixture = \<lparr>header = ''{version: 2, width: 87, height: 43}'',
               body = [\<lparr>timestamp = 1, kind = ''o'', data = ''one''\<rparr>,
                       \<lparr>timestamp = 2, kind = ''o'', data = ''two''\<rparr>,
                       \<lparr>timestamp = 3, kind = ''i'', data = ''d''\<rparr>,
                       \<lparr>timestamp = round_to_double 3.1, kind = ''i'', data = ''e''\<rparr>,
                       \<lparr>timestamp = round_to_double 3.2, kind = ''i'', data = ''l''\<rparr>,
                       \<lparr>timestamp = 4, kind = ''o'', data = ''three''\<rparr>]\<rparr>"

text \<open>
  The word \<open>del\<close> typed twice, each time followed by a space; and the word \<open>del\<close>
  arriving as one Input event (pasted text), followed by a space and an unfinished word.
\<close>

definition typed_del_twice :: recording where
  "typed_del_twice =
     \<lparr>header = ''{version: 2}'',
      body = [\<lparr>timestamp = 1, kind = ''i'', data = ''d''\<rparr>,
              \<lparr>timestamp = round_to_double 1.1, kind = ''i'', data = ''e''\<rparr>,
              \<lparr>timestamp = round_to_double 1.2, kind = ''i'', data = ''l''\<rparr>,
              \<lparr>timestamp = round_to_double 1.3, kind = ''i'', data = '' ''\<rparr>,
              \<lparr>timestamp = 2, kind = ''i'', data = ''d''\<rparr>,
              \<lparr>timestamp = round_to_double 2.1, kind = ''i'', data = ''e''\<rparr>,
              \<lparr>timestamp = round_to_double 2.2, kind = ''i'', data = ''l''\<rparr>,
              \<lparr>timestamp = round_to_double 2.3, kind = ''i'', data = '' ''\<rparr>]\<rparr>"

definition pasted_del :: recording where
  "pasted_del =
     \<lparr>header = ''{version: 2}'',
      body = [\<lparr>timestamp = 1, kind = ''i'', data = ''del''\<rparr>,
              \<lparr>timestamp = 2, kind = ''i'', data = '' ''\<rparr>,
              \<lparr>timestamp = 3, kind = ''i'', data = ''a''\<rparr>,
              \<lparr>timestamp = 4, kind = ''i'', data = ''b''\<rparr>]\<rparr>"

text \<open>
  Recordings whose timestamps are not multiples of a power of two: three outputs a few
  tenths of a second apart, an output that comes late, outputs several seconds apart, and
  timestamps with more than seven decimals.
\<close>

definition tenths :: recording where
  "tenths = \<lparr>header = ''{version: 2}'',
              body = [\<lparr>timestamp = round_to_double 0.1, kind = ''o'', data = ''a''\<rparr>,
                      \<lparr>timestamp = round_to_double 0.3, kind = ''o'', data = ''b''\<rparr>,
                      \<lparr>timestamp = round_to_double 0.7, kind = ''o'', data = ''c''\<rparr>]\<rparr>"

definition late_output :: recording where
  "late_output = \<lparr>header = ''{version: 2}'',
                   body = [\<lparr>timestamp = round_to_double 1.03, kind = ''o'', data = ''a''\<rparr>,
                           \<lparr>timestamp = 5, kind = ''o'', data = ''b''\<rparr>]\<rparr>"

definition slow_typing :: recording where
  "slow_typing = \<lparr>header = ''{version: 2}'',
                   body = [\<lparr>timestamp = round_to_double 1.6, kind = ''o'', data = ''a''\<rparr>,
                           \<lparr>timestamp = round_to_double 7.7, kind = ''o'', data = ''b''\<rparr>,
                           \<lparr>timestamp = round_to_double 8.8, kind = ''o'', data = ''c''\<rparr>]\<rparr>"

definition unrounded :: recording where
  "unrounded = \<lparr>header = ''{version: 2}'',
                 body = [\<lparr>timestamp = round_to_double 0.123456789, kind = ''o'', data = ''a''\<rparr>,
                         \<lparr>timestamp = round_to_double 2.00000004, kind = ''o'', data = ''b''\<rparr>]\<rparr>"

section \<open>Double-precision arithmetic\<close>

lemma round_half_even_of_int: "round_half_even (of_int n) = n"
  by (simp add: round_half_even_def)

lemma round_half_even_near: "\<bar>of_int (round_half_even x) - x\<bar> \<le> 1 / 2"
  unfolding round_half_even_def Let_def by (auto simp: abs_if) linarith+

lemma round_half_even_bound:
  assumes "\<bar>x\<bar> \<le> of_int N"
  shows "\<bar>round_half_even x\<bar> \<le> N"
proof -
  have "\<bar>of_int (round_half_even x)\<bar> \<le> \<bar>x\<bar> + 1 / 2"
    using round_half_even_near [of x] by linarith
  with assms have "of_int \<bar>round_half_even x\<bar> < (of_int (N + 1) :: real)"
    by simp
  then have "\<bar>round_half_even x\<bar> < N + 1"
    by (simp only: of_int_less_iff)
  then show ?thesis by simp
qed

lemma real_pow2_le: "(2::nat) ^ k \<le> m \<Longrightarrow> (2::real) ^ k \<le> real m"
proof -
  assume "(2::nat) ^ k \<le> m"
  then have "real ((2::nat) ^ k) \<le> real m"
    by (simp only: of_nat_le_iff)
  then show ?thesis by simp
qed

lemma real_less_pow2: "m < (2::nat) ^ k \<Longrightarrow> real m + 1 \<le> (2::real) ^ k"
proof -
  assume "m < (2::nat) ^ k"
  then have "Suc m \<le> 2 ^ k" by simp
  then have "real (Suc m) \<le> real ((2::nat) ^ k)"
    by (simp only: of_nat_le_iff)
  then show ?thesis by simp
qed

lemma double_le_of_half: "(p::nat) \<le> n div 2 \<Longrightarrow> 2 * p \<le> n"
  by arith

lemma less_double_of_half: "n div 2 < (p::nat) \<Longrightarrow> n < 2 * p"
  by arith

lemma bit_length_bounds:
  "0 < n \<Longrightarrow> 2 ^ (bit_length n - 1) \<le> n \<and> n < 2 ^ bit_length n"
proof (induction n rule: bit_length.induct)
  case (1 n)
  show ?case
  proof (cases "n div 2 = 0")
    case True
    with "1.prems" have "n = 1" by (simp add: div_eq_0_iff) 
    moreover have "bit_length (Suc 0) = Suc 0"
      by (simp add: bit_length.simps [of "Suc 0"] bit_length.simps [of 0])
    ultimately show ?thesis
      by simp
  next
    case False
    then have h: "0 < n div 2" by simp
    from "1.IH" [OF _ h] "1.prems"
    have IH: "2 ^ (bit_length (n div 2) - 1) \<le> n div 2" "n div 2 < 2 ^ bit_length (n div 2)"
      by simp_all
    have pos: "0 < bit_length (n div 2)"
      using h by (subst bit_length.simps) simp
    have bl: "bit_length n = Suc (bit_length (n div 2))"
      using "1.prems" by (subst bit_length.simps) simp
    have "(2::nat) ^ bit_length (n div 2) = 2 * 2 ^ (bit_length (n div 2) - 1)"
      using pos by (cases "bit_length (n div 2)") simp_all
    then have lo: "2 ^ bit_length (n div 2) \<le> n"
      using double_le_of_half [OF IH(1)] by simp
    have hi: "n < 2 * 2 ^ bit_length (n div 2)"
      using IH(2) by (rule less_double_of_half)
    show ?thesis
      using lo hi by (simp add: bl)
  qed
qed

lemma bit_length_pos: "0 < n \<Longrightarrow> 0 < bit_length n"
  by (subst bit_length.simps) simp

lemma exponent_bounds:
  assumes "x \<noteq> 0"
  shows "2 powi exponent x \<le> \<bar>x\<bar>" and "\<bar>x\<bar> < 2 powi (exponent x + 1)"
proof -
  have "2 powi exponent x \<le> \<bar>x\<bar> \<and> \<bar>x\<bar> < 2 powi (exponent x + 1)"
  proof (cases "1 \<le> \<bar>x\<bar>")
    case True
    define n where "n = nat \<lfloor>\<bar>x\<bar>\<rfloor>"
    have "1 \<le> \<lfloor>\<bar>x\<bar>\<rfloor>"
      using True by (simp add: le_floor_iff)
    then have n: "0 < n" "real n \<le> \<bar>x\<bar>" "\<bar>x\<bar> < real n + 1"
      unfolding n_def by linarith+
    from bit_length_bounds [OF n(1)] bit_length_pos [OF n(1)]
    have b: "2 ^ (bit_length n - 1) \<le> n" "n < 2 ^ bit_length n" "0 < bit_length n"
      by simp_all
    have e: "exponent x = int (bit_length n) - 1"
      using True by (simp add: exponent_def n_def)
    have "(2::real) powi (int (bit_length n) - 1) = 2 ^ (bit_length n - 1)"
      using b(3) by (simp add: power_int_def nat_diff_distrib')
    also have "\<dots> \<le> real n"
      using b(1) by (rule real_pow2_le)
    finally have lo: "2 powi exponent x \<le> \<bar>x\<bar>"
      using n(2) e by simp
    have "real n + 1 \<le> 2 ^ bit_length n"
      using b(2) by (rule real_less_pow2)
    then have "\<bar>x\<bar> < 2 powi (exponent x + 1)"
      using n(3) e by simp
    with lo show ?thesis by simp
  next
    case False
    define y where "y = 1 / \<bar>x\<bar>"
    define m where "m = nat (\<lceil>y\<rceil> - 1)"
    have y: "1 < y" "0 < \<bar>x\<bar>"
      using False assms by (simp_all add: y_def)
    then have "2 \<le> \<lceil>y\<rceil>" by linarith
    then have m: "0 < m" "real m < y" "y \<le> real m + 1"
      unfolding m_def by linarith+
    from bit_length_bounds [OF m(1)] bit_length_pos [OF m(1)]
    have b: "2 ^ (bit_length m - 1) \<le> m" "m < 2 ^ bit_length m" "0 < bit_length m"
      by simp_all
    have e: "exponent x = - int (bit_length m)"
      using False by (simp add: exponent_def m_def y_def)
    have "real m + 1 \<le> 2 ^ bit_length m"
      using b(2) by (rule real_less_pow2)
    with m(3) have "y \<le> 2 ^ bit_length m" by simp
    then have "1 / 2 ^ bit_length m \<le> \<bar>x\<bar>"
      using y(2) by (simp add: y_def field_simps)
    then have lo: "2 powi exponent x \<le> \<bar>x\<bar>"
      by (simp add: e power_int_minus_divide)
    have "(2::real) ^ (bit_length m - 1) \<le> real m"
      using b(1) by (rule real_pow2_le)
    with m(2) have "(2::real) ^ (bit_length m - 1) < y" by linarith
    then have "\<bar>x\<bar> < 1 / 2 ^ (bit_length m - 1)"
      using y(2) by (simp add: y_def field_simps)
    moreover have "(2::real) powi (- int (bit_length m) + 1) = 1 / 2 ^ (bit_length m - 1)"
    proof -
      have "- int (bit_length m) + 1 = - int (bit_length m - 1)"
        using b(3) by simp
      then show ?thesis
        by (simp only: power_int_minus_divide power_int_of_nat)
    qed
    ultimately have "\<bar>x\<bar> < 2 powi (exponent x + 1)"
      by (simp add: e)
    with lo show ?thesis by simp
  qed
  then show "2 powi exponent x \<le> \<bar>x\<bar>" and "\<bar>x\<bar> < 2 powi (exponent x + 1)"
    by simp_all
qed

lemma pow2_less_imp: "(2::real) powi a < 2 powi b \<Longrightarrow> a < b"
  by (rule ccontr) (use power_int_increasing [of b a "2::real"] in simp)

lemma exponent_less: "x \<noteq> 0 \<Longrightarrow> \<bar>x\<bar> < 2 powi k \<Longrightarrow> exponent x < k"
  using exponent_bounds(1) [of x] pow2_less_imp [of "exponent x" k] by simp

lemma exponent_ge: "x \<noteq> 0 \<Longrightarrow> 2 powi k \<le> \<bar>x\<bar> \<Longrightarrow> k \<le> exponent x"
  using exponent_bounds(2) [of x] pow2_less_imp [of k "exponent x + 1"] by simp

lemma round_to_double_zero: "round_to_double 0 = 0"
  by (simp add: round_to_double_def)

lemma round_to_double_scaled_int:
  assumes "y \<noteq> 0" and "y = of_int m * 2 powi max (exponent y - 52) (- 1074)"
  shows "round_to_double y = y"
proof -
  let ?q = "max (exponent y - 52) (- 1074)"
  have "y / 2 powi ?q = of_int m"
    using assms(2) by (metis nonzero_mult_div_cancel_right power_int_eq_0_iff zero_neq_numeral)
  then have "round_half_even (y / 2 powi ?q) = m"
    by (simp only: round_half_even_of_int)
  with assms show ?thesis
    by (simp add: round_to_double_def Let_def)
qed

lemma round_to_double_idem: "round_to_double (round_to_double x) = round_to_double x"
proof (cases "round_to_double x = 0")
  case True
  then show ?thesis by (simp add: round_to_double_zero)
next
  case False
  then have x: "x \<noteq> 0" by (auto simp: round_to_double_zero)
  define q where "q = max (exponent x - 52) (- 1074)"
  define s :: real where "s = 2 powi q"
  define n where "n = round_half_even (x / s)"
  define y where "y = round_to_double x"
  have s: "0 < s" by (simp add: s_def)
  have y: "y = of_int n * s"
    using x by (simp add: y_def round_to_double_def Let_def q_def s_def n_def)
  have y0: "y \<noteq> 0" using False by (simp add: y_def)
  have q: "exponent x + 1 \<le> q + 53" "- 1074 \<le> q"
    by (simp_all add: q_def)
  have "\<bar>x\<bar> < 2 powi (exponent x + 1)"
    using x by (rule exponent_bounds)
  also have "\<dots> \<le> 2 powi (q + 53)"
    using q(1) by (intro power_int_increasing) simp_all
  also have "\<dots> = 2 ^ 53 * s"
    by (simp add: s_def power_int_add)
  finally have "\<bar>x / s\<bar> \<le> of_int (2 ^ 53)"
    using s by (simp add: field_simps abs_mult)
  then have n: "\<bar>n\<bar> \<le> 2 ^ 53"
    unfolding n_def by (rule round_half_even_bound)
  then have "\<bar>real_of_int n\<bar> \<le> 2 ^ 53"
    by (metis of_int_abs of_int_le_iff of_int_numeral of_int_power)
  then have "\<bar>y\<bar> \<le> 2 ^ 53 * s"
    using s by (simp add: y abs_mult)
  also have "\<dots> < 2 powi (q + 54)"
    using s by (simp add: s_def power_int_add)
  finally have ey: "exponent y < q + 54"
    using y0 by (intro exponent_less)
  define qy where "qy = max (exponent y - 52) (- 1074)"
  have "\<exists>m. y = of_int m * 2 powi qy"
  proof (cases "qy \<le> q")
    case True
    then have "s = 2 ^ nat (q - qy) * 2 powi qy"
      using power_int_add [of "2::real" "q - qy" qy] by (simp add: s_def power_int_def)
    then have "y = of_int (n * 2 ^ nat (q - qy)) * 2 powi qy"
      by (simp add: y)
    then show ?thesis ..
  next
    case False
    with ey q(2) have qy: "qy = q + 1" "exponent y = q + 53"
      by (simp_all add: qy_def max_def split: if_splits)
    have "2 powi (q + 53) \<le> \<bar>y\<bar>"
      using exponent_bounds(1) [OF y0] qy(2) by simp
    also have "2 powi (q + 53) = 2 ^ 53 * s"
      by (simp add: s_def power_int_add)
    finally have "2 ^ 53 \<le> \<bar>real_of_int n\<bar>"
      using s by (simp add: y abs_mult)
    then have "2 ^ 53 \<le> \<bar>n\<bar>"
      by (metis of_int_abs of_int_le_iff of_int_numeral of_int_power)
    with n have "\<bar>n\<bar> = 2 ^ 53" by simp
    then have "even \<bar>n\<bar>" by simp
    then have "n = 2 * (n div 2)"
      by simp
    moreover have "2 powi qy = 2 * s"
      by (simp add: qy(1) s_def power_int_add)
    ultimately have "y = of_int (n div 2) * 2 powi qy"
      by (metis (no_types) y mult.assoc mult.commute of_int_mult of_int_numeral)
    then show ?thesis ..
  qed
  then obtain m where "y = of_int m * 2 powi max (exponent y - 52) (- 1074)"
    unfolding qy_def ..
  with y0 have "round_to_double y = y"
    by (rule round_to_double_scaled_int)
  then show ?thesis
    by (simp add: y_def)
qed

lemma round_to_double_error: "\<bar>round_to_double x - x\<bar> \<le> ulp_bound x"
proof (cases "x = 0")
  case True
  then show ?thesis by (simp add: round_to_double_zero ulp_bound_def)
next
  case False
  define q where "q = max (exponent x - 52) (- 1074)"
  define s :: real where "s = 2 powi q"
  have s: "0 < s" by (simp add: s_def)
  have "round_to_double x - x = (of_int (round_half_even (x / s)) - x / s) * s"
    using False s by (simp add: round_to_double_def Let_def q_def s_def field_simps)
  then have "\<bar>round_to_double x - x\<bar> = \<bar>of_int (round_half_even (x / s)) - x / s\<bar> * s"
    using s by (simp add: abs_mult)
  also have "\<dots> \<le> 1 / 2 * s"
    using round_half_even_near [of "x / s"] s by (intro mult_right_mono) simp_all
  finally have half: "\<bar>round_to_double x - x\<bar> \<le> s / 2"
    by simp
  have "s / 2 \<le> ulp_bound x"
  proof (cases "- 1074 \<le> exponent x - 52")
    case True
    then have "s = 2 powi exponent x / 2 ^ 52"
      by (simp add: s_def q_def power_int_diff)
    also have "\<dots> \<le> \<bar>x\<bar> / 2 ^ 52"
      using exponent_bounds(1) [OF False] by (simp add: divide_right_mono)
    finally have "s / 2 \<le> \<bar>x\<bar> / 2 ^ 53"
      by simp
    then show ?thesis
      by (simp add: ulp_bound_def)
  next
    case False
    then have "s = 1 / 2 ^ 1074"
      by (simp add: s_def q_def power_int_minus_divide)
    then show ?thesis
      by (simp add: ulp_bound_def)
  qed
  with half show ?thesis by simp
qed

text \<open>
  Every number with a significand of at most 53 bits and an exponent in the range of the
  doubles is left as it is, and rounding a second time changes nothing.
\<close>

lemma round_to_double_representable:
  assumes "\<bar>m\<bar> < 2 ^ 53" and "- 1074 \<le> q"
  shows "round_to_double (of_int m * 2 powi q) = of_int m * 2 powi q"
proof (cases "m = 0")
  case True
  then show ?thesis by (simp add: round_to_double_zero)
next
  case False
  define y :: real where "y = of_int m * 2 powi q"
  have y0: "y \<noteq> 0"
    using False by (simp add: y_def)
  have "\<bar>real_of_int m\<bar> < 2 ^ 53"
    using assms(1) by (metis of_int_abs of_int_less_iff of_int_numeral of_int_power)
  then have "\<bar>y\<bar> < 2 ^ 53 * 2 powi q"
    by (simp add: y_def abs_mult)
  also have "\<dots> = 2 powi (q + 53)"
    by (simp add: power_int_add)
  finally have "exponent y < q + 53"
    using y0 by (intro exponent_less)
  with assms(2) have le: "max (exponent y - 52) (- 1074) \<le> q"
    by simp
  define qy where "qy = max (exponent y - 52) (- 1074)"
  have "2 powi q = 2 ^ nat (q - qy) * (2::real) powi qy"
    using le power_int_add [of "2::real" "q - qy" qy] by (simp add: qy_def power_int_def)
  then have "y = of_int (m * 2 ^ nat (q - qy)) * 2 powi qy"
    by (simp add: y_def)
  with y0 have "round_to_double y = y"
    unfolding qy_def by (rule round_to_double_scaled_int)
  then show ?thesis
    by (simp add: y_def)
qed

text \<open>No double is nearer to \<open>x\<close> than \<open>round_to_double x\<close>.\<close>

lemma round_half_even_nearest:
  "\<bar>of_int (round_half_even z) - z\<bar> \<le> \<bar>of_int j - z\<bar>"
proof -
  define d where "d = z - of_int \<lfloor>z\<rfloor>"
  have d: "0 \<le> d" "d < 1"
    unfolding d_def by linarith+
  have near: "\<bar>of_int (round_half_even z) - z\<bar> \<le> d" "\<bar>of_int (round_half_even z) - z\<bar> \<le> 1 - d"
    unfolding round_half_even_def Let_def d_def by (auto simp: abs_if) linarith+
  show ?thesis
  proof (cases "j \<le> \<lfloor>z\<rfloor>")
    case True
    then have "of_int j \<le> (of_int \<lfloor>z\<rfloor> :: real)"
      by (simp only: of_int_le_iff)
    then have "d \<le> \<bar>of_int j - z\<bar>"
      unfolding d_def by linarith
    with near(1) show ?thesis by linarith
  next
    case False
    then have "\<lfloor>z\<rfloor> + 1 \<le> j" by simp
    then have "(of_int (\<lfloor>z\<rfloor> + 1) :: real) \<le> of_int j"
      by (simp only: of_int_le_iff)
    then have "1 - d \<le> \<bar>of_int j - z\<bar>"
      unfolding d_def by simp
    with near(2) show ?thesis by linarith
  qed
qed

lemma round_to_double_nearest_on_grid:
  assumes "x \<noteq> 0"
  shows "\<bar>round_to_double x - x\<bar>
         \<le> \<bar>of_int j * 2 powi max (exponent x - 52) (- 1074) - x\<bar>"
proof -
  define s :: real where "s = 2 powi max (exponent x - 52) (- 1074)"
  have s: "0 < s" by (simp add: s_def)
  have "round_to_double x - x = (of_int (round_half_even (x / s)) - x / s) * s"
    using assms s by (simp add: round_to_double_def Let_def s_def field_simps)
  then have "\<bar>round_to_double x - x\<bar> = \<bar>of_int (round_half_even (x / s)) - x / s\<bar> * s"
    using s by (simp add: abs_mult)
  also have "\<dots> \<le> \<bar>of_int j - x / s\<bar> * s"
    using round_half_even_nearest [of "x / s" j] s by (intro mult_right_mono) simp_all
  also have "\<dots> = \<bar>(of_int j - x / s) * s\<bar>"
    using s by (simp add: abs_mult)
  also have "(of_int j - x / s) * s = of_int j * s - x"
    using s by (simp add: field_simps)
  finally show ?thesis
    unfolding s_def .
qed

lemma round_to_double_nearest:
  assumes "\<bar>m\<bar> < 2 ^ 53" and "- 1074 \<le> k"
  shows "\<bar>round_to_double x - x\<bar> \<le> \<bar>of_int m * 2 powi k - x\<bar>"
proof (cases "x = 0")
  case True
  then show ?thesis by (simp add: round_to_double_zero)
next
  case False
  define q where "q = max (exponent x - 52) (- 1074)"
  show ?thesis
  proof (cases "q \<le> k")
    case True
    then have "(2::real) powi k = 2 ^ nat (k - q) * 2 powi q"
      using power_int_add [of "2::real" "k - q" q] by (simp add: power_int_def)
    then have "real_of_int m * 2 powi k = of_int (m * 2 ^ nat (k - q)) * 2 powi q"
      by simp
    moreover have "\<bar>round_to_double x - x\<bar> \<le> \<bar>of_int (m * 2 ^ nat (k - q)) * 2 powi q - x\<bar>"
      unfolding q_def by (rule round_to_double_nearest_on_grid [OF False])
    ultimately show ?thesis
      by (simp only:)
  next
    case below: False
    with assms(2) have q: "q = exponent x - 52" "k + 1 \<le> q"
      by (simp_all add: q_def max_def split: if_splits)
    define d :: real where "d = of_int m * 2 powi k"
    have "\<bar>real_of_int m\<bar> \<le> 2 ^ 53"
      using assms(1) by (metis less_imp_le of_int_abs of_int_le_iff of_int_numeral of_int_power)
    then have "\<bar>d\<bar> \<le> 2 ^ 53 * 2 powi k"
      by (simp add: d_def abs_mult)
    also have "\<dots> = 2 powi (k + 53)"
      by (simp add: power_int_add)
    also have "\<dots> \<le> 2 powi exponent x"
      using q by (intro power_int_increasing) simp_all
    finally have dx: "\<bar>d\<bar> \<le> 2 powi exponent x" .
    have xe: "2 powi exponent x \<le> \<bar>x\<bar>"
      using False by (rule exponent_bounds)
    have grid: "2 powi exponent x = 2 ^ 52 * (2::real) powi q"
      using power_int_add [of "2::real" 52 q] by (simp add: q(1))
    define j :: int where "j = (if 0 < x then 2 ^ 52 else - (2 ^ 52))"
    have "real_of_int j * 2 powi q = (if 0 < x then 2 powi exponent x else - (2 powi exponent x))"
      by (simp add: j_def grid)
    then have "\<bar>real_of_int j * 2 powi q - x\<bar> = \<bar>x\<bar> - 2 powi exponent x"
      using xe False by (auto simp: abs_if split: if_splits)
    also have "\<dots> \<le> \<bar>d - x\<bar>"
      using dx by linarith
    finally show ?thesis
      using round_to_double_nearest_on_grid [OF False, of j]
      unfolding q_def d_def by linarith
  qed
qed

text \<open>
  Rounding does not cross a power of two, so a value within the range of the doubles is
  rounded to a finite double.
\<close>

lemma round_to_double_le_pow2:
  assumes "- 1074 \<le> k" and "\<bar>x\<bar> \<le> 2 powi k"
  shows "\<bar>round_to_double x\<bar> \<le> 2 powi k"
proof -
  define j :: int where "j = (if 0 \<le> x then 1 else - 1)"
  have j: "\<bar>j\<bar> < 2 ^ 53"
    by (simp add: j_def)
  have "\<bar>round_to_double x - x\<bar> \<le> \<bar>of_int j * 2 powi k - x\<bar>"
    using j assms(1) by (rule round_to_double_nearest)
  also have "\<bar>of_int j * 2 powi k - x\<bar> = 2 powi k - \<bar>x\<bar>"
    using assms(2) by (auto simp: j_def abs_if split: if_splits)
  finally show ?thesis
    by linarith
qed

section \<open>renormalize\<close>

lemma shift_line_zero: "shift_line 0 (shift_line first_start line) = shift_line first_start line"
  by (simp add: shift_line_def float_sub_def round_to_double_idem)

lemma renormalize_nonempty:
  "body r = e # es \<Longrightarrow>
   renormalize r = Inr (r\<lparr>body := map (shift_line (timestamp e)) (e # es)\<rparr>)"
  by (simp add: renormalize_def)

text \<open>
  On timestamps of magnitude at most \<open>2\<^sup>1\<^sup>0\<^sup>2\<^sup>2\<close> no subtraction of \<open>renormalize\<close>
  overflows.
\<close>

lemma renormalize_in_range:
  assumes "list_all (\<lambda>e. \<bar>timestamp e\<bar> \<le> 2 ^ 1022) (body r)"
    and "renormalize r = Inr r1"
  shows "list_all (\<lambda>e. \<bar>timestamp e\<bar> \<le> 2 ^ 1023) (body r1)"
proof -
  from assms(2) obtain e es where b: "body r = e # es"
    by (cases "body r") (auto simp: renormalize_def)
  with assms(2) have r1: "body r1 = map (shift_line (timestamp e)) (body r)"
    by (auto simp: renormalize_def)
  have e: "\<bar>timestamp e\<bar> \<le> 2 ^ 1022"
    using assms(1) b by simp
  have "\<bar>timestamp (shift_line (timestamp e) l)\<bar> \<le> 2 ^ 1023"
    if "\<bar>timestamp l\<bar> \<le> 2 ^ 1022" for l
  proof -
    have "\<bar>timestamp l - timestamp e\<bar> \<le> 2 powi 1023"
      using that e by simp
    then have "\<bar>round_to_double (timestamp l - timestamp e)\<bar> \<le> 2 powi 1023"
      by (intro round_to_double_le_pow2) simp_all
    then show ?thesis
      by (simp add: shift_line_def float_sub_def)
  qed
  with assms(1) show ?thesis
    unfolding r1 by (simp add: list_all_iff)
qed

text \<open>
  C3. The claim says that renormalize on an empty event stream is a no-op that does not
  fail with an indexing error. The code reads \<open>self.body[0][0]\<close> first, so on an empty
  body it raises IndexError.
\<close>

theorem renormalize_empty_raises:
  "renormalize \<lparr>header = h, body = []\<rparr> = Inl IndexError"
  by (simp add: renormalize_def)

text \<open>
  C7, as stated, fails in its last part: the gaps are not preserved exactly. Of the
  timestamps 0.1, 0.3, 0.7 renormalize makes 0.0, 0.19999999999999998, 0.6, and the gap
  between the second and the third event is no longer the one of the original doubles.
\<close>

theorem renormalize_gap_counterexample:
  "renormalize tenths
   = Inr (tenths\<lparr>body := [\<lparr>timestamp = 0, kind = ''o'', data = ''a''\<rparr>,
                           \<lparr>timestamp = 7205759403792793 / 2 ^ 55, kind = ''o'', data = ''b''\<rparr>,
                           \<lparr>timestamp = 5404319552844595 / 2 ^ 53, kind = ''o'', data = ''c''\<rparr>]\<rparr>)
   \<and> timestamp (body tenths ! 2) - timestamp (body tenths ! 1)
       \<noteq> (5404319552844595 / 2 ^ 53 - 7205759403792793 / 2 ^ 55 :: real)"
  by code_simp

text \<open>
  C7, amended. On a non-empty stream renormalize succeeds, a second call returns the same
  recording as the first, and the first timestamp is exactly 0 afterwards. Every timestamp
  becomes the double nearest to its distance from the first one, so that every gap between
  consecutive events is preserved up to the rounding of the two subtractions (a relative
  error of at most \<open>2\<^sup>-\<^sup>5\<^sup>3\<close> each).
\<close>

theorem renormalize_twice:
  assumes "body r \<noteq> []"
  shows "\<exists>r1. renormalize r = Inr r1
           \<and> renormalize r1 = Inr r1
           \<and> timestamp (body r1 ! 0) = 0
           \<and> length (body r1) = length (body r)
           \<and> (\<forall>i<length (body r).
                 timestamp (body r1 ! i)
                 = round_to_double (timestamp (body r ! i) - timestamp (body r ! 0)))
           \<and> (\<forall>i. Suc i < length (body r) \<longrightarrow>
                 \<bar>(timestamp (body r1 ! Suc i) - timestamp (body r1 ! i))
                  - (timestamp (body r ! Suc i) - timestamp (body r ! i))\<bar>
                 \<le> ulp_bound (timestamp (body r ! Suc i) - timestamp (body r ! 0))
                   + ulp_bound (timestamp (body r ! i) - timestamp (body r ! 0)))"
proof -
  from assms obtain e es where b: "body r = e # es"
    by (cases "body r") auto
  define r1 where "r1 = r\<lparr>body := map (shift_line (timestamp e)) (e # es)\<rparr>"
  have first: "renormalize r = Inr r1"
    using b by (simp add: renormalize_nonempty r1_def)
  have b1: "body r1 = shift_line (timestamp e) e # map (shift_line (timestamp e)) es"
    by (simp add: r1_def)
  have zero: "timestamp (shift_line (timestamp e) e) = 0"
    by (simp add: shift_line_def float_sub_def round_to_double_zero)
  have "renormalize r1 = Inr (r1\<lparr>body := map (shift_line 0) (body r1)\<rparr>)"
    using renormalize_nonempty [OF b1] zero by (simp add: b1)
  also have "map (shift_line 0) (body r1) = body r1"
    by (simp add: r1_def shift_line_zero cong: map_cong)
  finally have second: "renormalize r1 = Inr r1"
    by simp
  have e0: "body r ! 0 = e"
    by (simp add: b)
  have nth: "timestamp (body r1 ! i)
             = round_to_double (timestamp (body r ! i) - timestamp (body r ! 0))"
    if "i < length (body r)" for i
  proof -
    have "body r1 = map (shift_line (timestamp e)) (body r)"
      by (simp add: r1_def b)
    then show ?thesis
      using that by (simp add: shift_line_def float_sub_def e0)
  qed
  have gaps: "\<bar>(timestamp (body r1 ! Suc i) - timestamp (body r1 ! i))
               - (timestamp (body r ! Suc i) - timestamp (body r ! i))\<bar>
              \<le> ulp_bound (timestamp (body r ! Suc i) - timestamp (body r ! 0))
                + ulp_bound (timestamp (body r ! i) - timestamp (body r ! 0))"
    if "Suc i < length (body r)" for i
  proof -
    define a where "a = timestamp (body r ! Suc i) - timestamp (body r ! 0)"
    define c where "c = timestamp (body r ! i) - timestamp (body r ! 0)"
    from that have "i < length (body r)" by simp
    then have "timestamp (body r1 ! Suc i) = round_to_double a"
      "timestamp (body r1 ! i) = round_to_double c"
      using nth that by (simp_all add: a_def c_def)
    moreover have "timestamp (body r ! Suc i) - timestamp (body r ! i) = a - c"
      by (simp add: a_def c_def)
    moreover have "\<bar>round_to_double a - a\<bar> \<le> ulp_bound a" "\<bar>round_to_double c - c\<bar> \<le> ulp_bound c"
      by (rule round_to_double_error)+
    ultimately show ?thesis
      unfolding a_def [symmetric] c_def [symmetric] by linarith
  qed
  have len: "length (body r1) = length (body r)"
    by (simp add: r1_def b)
  have z: "timestamp (body r1 ! 0) = 0"
    using zero by (simp add: b1)
  from first second z len nth gaps show ?thesis
    by blast
qed

theorem renormalize_twice_witness:
  "body tenths \<noteq> []
   \<and> (\<exists>r1. renormalize tenths = Inr r1
          \<and> renormalize r1 = Inr r1
          \<and> timestamp (body r1 ! 0) = 0
          \<and> \<bar>(timestamp (body r1 ! 2) - timestamp (body r1 ! 1))
              - (timestamp (body tenths ! 2) - timestamp (body tenths ! 1))\<bar> \<le> 1 / 2 ^ 53)"
proof -
  have ne: "body tenths \<noteq> []"
    by (simp add: tenths_def)
  from renormalize_twice [OF ne] obtain r1 where
    r1: "renormalize tenths = Inr r1" "renormalize r1 = Inr r1" "timestamp (body r1 ! 0) = 0"
    and gaps: "\<forall>i. Suc i < length (body tenths) \<longrightarrow>
                 \<bar>(timestamp (body r1 ! Suc i) - timestamp (body r1 ! i))
                  - (timestamp (body tenths ! Suc i) - timestamp (body tenths ! i))\<bar>
                 \<le> ulp_bound (timestamp (body tenths ! Suc i) - timestamp (body tenths ! 0))
                   + ulp_bound (timestamp (body tenths ! i) - timestamp (body tenths ! 0))"
    by blast
  have "Suc 1 < length (body tenths)"
    by (simp add: tenths_def)
  with gaps have "\<bar>(timestamp (body r1 ! Suc 1) - timestamp (body r1 ! 1))
                  - (timestamp (body tenths ! Suc 1) - timestamp (body tenths ! 1))\<bar>
                 \<le> ulp_bound (timestamp (body tenths ! Suc 1) - timestamp (body tenths ! 0))
                   + ulp_bound (timestamp (body tenths ! 1) - timestamp (body tenths ! 0))"
    by blast
  moreover have "\<bar>timestamp (body tenths ! Suc 1) - timestamp (body tenths ! 0)\<bar> \<le> 5 / 8"
    "\<bar>timestamp (body tenths ! 1) - timestamp (body tenths ! 0)\<bar> \<le> 1 / 4"
    by code_simp+
  moreover have "(1::real) / 2 ^ 1075 \<le> 1 / 2 ^ 57"
    by (simp add: field_simps power_increasing)
  ultimately have "\<bar>(timestamp (body r1 ! 2) - timestamp (body r1 ! 1))
              - (timestamp (body tenths ! 2) - timestamp (body tenths ! 1))\<bar> \<le> 1 / 2 ^ 53"
    by (simp add: numeral_2_eq_2 ulp_bound_def)
  with ne r1 show ?thesis
    by blast
qed

section \<open>quantize\<close>

lemma length_quantize_step [simp]: "length (quantize_step deltas idx b) = length b"
  by (simp add: quantize_step_def)

lemma length_fold_quantize_step [simp]: "length (fold (quantize_step deltas) is b) = length b"
  by (induction "is" arbitrary: b) simp_all

lemma quantize_prefix:
  "n \<le> length b \<Longrightarrow>
   (\<forall>i. n \<le> i \<longrightarrow> i < length b \<longrightarrow> fold (quantize_step deltas) [1..<n] b ! i = b ! i)
   \<and> (b \<noteq> [] \<longrightarrow> fold (quantize_step deltas) [1..<n] b ! 0 = b ! 0)
   \<and> (\<forall>i. 1 \<le> i \<and> i < n \<longrightarrow>
         timestamp (fold (quantize_step deltas) [1..<n] b ! i)
         = float_add (timestamp (fold (quantize_step deltas) [1..<n] b ! (i - 1))) (deltas ! i))"
proof (induction n)
  case 0
  then show ?case by simp
next
  case (Suc m)
  show ?case
  proof (cases "m = 0")
    case True
    then show ?thesis by simp
  next
    case False
    define c where "c = fold (quantize_step deltas) [1..<m] b"
    have lc: "length c = length b" by (simp add: c_def)
    have m: "m < length b" "0 < m" using Suc.prems False by auto
    have IH: "\<forall>i. m \<le> i \<longrightarrow> i < length b \<longrightarrow> c ! i = b ! i"
      "b \<noteq> [] \<longrightarrow> c ! 0 = b ! 0"
      "\<forall>i. 1 \<le> i \<and> i < m \<longrightarrow> timestamp (c ! i) = float_add (timestamp (c ! (i - 1))) (deltas ! i)"
      using Suc.IH m unfolding c_def by auto
    have step: "fold (quantize_step deltas) [1..<Suc m] b = quantize_step deltas m c"
      using m by (simp add: c_def)
    have nth: "quantize_step deltas m c ! i
               = (if i = m then (c ! m)\<lparr>timestamp := float_add (timestamp (c ! (m - 1))) (deltas ! m)\<rparr>
                  else c ! i)"
      if "i < length b" for i
      using that lc m by (simp add: quantize_step_def nth_list_update)
    show ?thesis
      unfolding step
    proof (intro conjI allI impI)
      fix i assume "Suc m \<le> i" "i < length b"
      then show "quantize_step deltas m c ! i = b ! i" using nth IH(1) by simp
    next
      assume "b \<noteq> []"
      then show "quantize_step deltas m c ! 0 = b ! 0" using nth [of 0] IH(2) m by simp
    next
      fix i assume i: "1 \<le> i \<and> i < Suc m"
      then have il: "i < length b" "i - 1 < length b" "i - 1 \<noteq> m" using m by auto
      show "timestamp (quantize_step deltas m c ! i)
            = float_add (timestamp (quantize_step deltas m c ! (i - 1))) (deltas ! i)"
      proof (cases "i = m")
        case True
        then show ?thesis using nth [OF il(1)] nth [OF il(2)] il by simp
      next
        case False
        then have "1 \<le> i \<and> i < m" using i by auto
        then have "timestamp (c ! i) = float_add (timestamp (c ! (i - 1))) (deltas ! i)"
          using IH(3) by blast
        then show ?thesis using nth [OF il(1)] nth [OF il(2)] il False by simp
      qed
    qed
  qed
qed

lemma quantize_deltas_nth:
  "1 \<le> i \<Longrightarrow> i < length ts \<Longrightarrow>
   quantize_deltas md ts ! i = min md (float_sub (ts ! i) (ts ! (i - 1)))"
  by (cases i) (simp_all add: quantize_deltas_def)

lemma length_quantize_deltas: "length (quantize_deltas md ts) = max 1 (length ts)"
  by (simp add: quantize_deltas_def)

lemma min_rounded_near:
  assumes "\<not> md < g"
  shows "\<bar>min md (round_to_double g) - g\<bar> \<le> ulp_bound g"
  using round_to_double_error [of g] assms by (auto simp: min_def abs_if split: if_splits)

text \<open>
  C4, as stated, fails in both parts. Of the timestamps 1.03, 5.0 and the default delay 1
  quantize makes 1.03, 2.0300000000000002: the gap exceeded the delay and still exceeds it
  afterwards, by \<open>2\<^sup>-\<^sup>5\<^sup>2\<close>. Of the timestamps 1.6, 7.7, 8.8 and a delay of 100, which no
  gap exceeds, it makes 1.6, 7.699999999999999, 8.8: the first gap is not the original one.
\<close>

theorem quantize_gaps_counterexample:
  "1 < timestamp (body late_output ! 1) - timestamp (body late_output ! 0)
   \<and> \<not> timestamp (body (quantize late_output 1) ! 1)
         - timestamp (body (quantize late_output 1) ! 0) \<le> 1
   \<and> \<not> 100 < timestamp (body slow_typing ! 1) - timestamp (body slow_typing ! 0)
   \<and> timestamp (body (quantize slow_typing 100) ! 1)
       - timestamp (body (quantize slow_typing 100) ! 0)
       \<noteq> timestamp (body slow_typing ! 1) - timestamp (body slow_typing ! 0)"
  by code_simp

text \<open>
  C4, amended. After \<open>quantize(max_delay)\<close> the stream has the same length and the first
  event keeps its timestamp. Every later timestamp is the double nearest to the sum of its
  rewritten predecessor and its delta, the smaller of \<open>max_delay\<close> and the double nearest
  to the gap between the original timestamps. So every new gap is at most \<open>max_delay\<close> up
  to the rounding of that addition, and where the original gap did not exceed
  \<open>max_delay\<close> it is the original gap up to the rounding of the subtraction and of the
  addition (a relative error of at most \<open>2\<^sup>-\<^sup>5\<^sup>3\<close> each).
\<close>

theorem quantize_gaps_rounded:
  "length (body (quantize r md)) = length (body r)
   \<and> (body r \<noteq> [] \<longrightarrow> timestamp (body (quantize r md) ! 0) = timestamp (body r ! 0))
   \<and> (\<forall>i. 1 \<le> i \<and> i < length (body r) \<longrightarrow>
         (let old_gap = timestamp (body r ! i) - timestamp (body r ! (i - 1));
              delta = min md (round_to_double old_gap);
              previous = timestamp (body (quantize r md) ! (i - 1));
              new_gap = timestamp (body (quantize r md) ! i) - previous
          in timestamp (body (quantize r md) ! i) = round_to_double (previous + delta)
             \<and> new_gap \<le> md + ulp_bound (previous + delta)
             \<and> (\<not> md < old_gap \<longrightarrow>
                  \<bar>new_gap - old_gap\<bar> \<le> ulp_bound old_gap + ulp_bound (previous + delta))))"
proof -
  define ds where "ds = quantize_deltas md (map timestamp (body r))"
  define q where "q = fold (quantize_step ds) [1..<length (body r)] (body r)"
  have q: "body (quantize r md) = q"
    by (simp add: quantize_def q_def ds_def)
  have P: "(body r \<noteq> [] \<longrightarrow> q ! 0 = body r ! 0)
         \<and> (\<forall>i. 1 \<le> i \<and> i < length (body r) \<longrightarrow>
               timestamp (q ! i) = float_add (timestamp (q ! (i - 1))) (ds ! i))"
    using quantize_prefix [of "length (body r)" "body r" ds] unfolding q_def by blast
  have len: "length q = length (body r)"
    by (simp add: q_def)
  have first: "body r \<noteq> [] \<longrightarrow> timestamp (q ! 0) = timestamp (body r ! 0)"
    using P by metis
  have main: "timestamp (q ! i) = round_to_double (timestamp (q ! (i - 1)) + delta)
             \<and> timestamp (q ! i) - timestamp (q ! (i - 1)) \<le> md + ulp_bound (timestamp (q ! (i - 1)) + delta)
             \<and> (\<not> md < old_gap \<longrightarrow>
                  \<bar>timestamp (q ! i) - timestamp (q ! (i - 1)) - old_gap\<bar>
                  \<le> ulp_bound old_gap + ulp_bound (timestamp (q ! (i - 1)) + delta))"
    if i: "1 \<le> i \<and> i < length (body r)"
      and og: "old_gap = timestamp (body r ! i) - timestamp (body r ! (i - 1))"
      and dl: "delta = min md (round_to_double old_gap)"
    for i old_gap delta
  proof -
    have "i - 1 < length (body r)"
      using i by arith
    then have "ds ! i = delta"
      using i by (simp add: ds_def quantize_deltas_nth float_sub_def og dl)
    moreover have "timestamp (q ! i) = float_add (timestamp (q ! (i - 1))) (ds ! i)"
      using P i by blast
    ultimately have eq: "timestamp (q ! i) = round_to_double (timestamp (q ! (i - 1)) + delta)"
      by (simp add: float_add_def)
    define s where "s = timestamp (q ! (i - 1)) + delta"
    have err: "\<bar>round_to_double s - s\<bar> \<le> ulp_bound s"
      by (rule round_to_double_error)
    have dmd: "delta \<le> md"
      by (simp add: dl)
    have cap: "timestamp (q ! i) - timestamp (q ! (i - 1)) \<le> md + ulp_bound s"
      using err dmd unfolding eq s_def [symmetric] by (simp add: s_def)
    have near: "\<bar>timestamp (q ! i) - timestamp (q ! (i - 1)) - old_gap\<bar> \<le> ulp_bound old_gap + ulp_bound s"
      if "\<not> md < old_gap"
    proof -
      have "\<bar>delta - old_gap\<bar> \<le> ulp_bound old_gap"
        unfolding dl using that by (rule min_rounded_near)
      moreover have "timestamp (q ! i) - timestamp (q ! (i - 1)) - old_gap
                     = (round_to_double s - s) + (delta - old_gap)"
        by (simp add: eq s_def)
      ultimately show ?thesis
        using err by linarith
    qed
    show ?thesis
      using eq cap near unfolding s_def by blast
  qed
  show ?thesis
    unfolding q Let_def
  proof (intro conjI allI impI)
    show "length q = length (body r)" by (rule len)
  next
    assume "body r \<noteq> []"
    with first show "timestamp (q ! 0) = timestamp (body r ! 0)" by simp
  next
    fix i assume "1 \<le> i \<and> i < length (body r)"
    from main [OF this refl refl]
    show "timestamp (q ! i)
          = round_to_double (timestamp (q ! (i - 1))
              + min md (round_to_double (timestamp (body r ! i) - timestamp (body r ! (i - 1)))))"
      by blast
  next
    fix i assume "1 \<le> i \<and> i < length (body r)"
    from main [OF this refl refl]
    show "timestamp (q ! i) - timestamp (q ! (i - 1))
          \<le> md + ulp_bound (timestamp (q ! (i - 1))
                 + min md (round_to_double (timestamp (body r ! i) - timestamp (body r ! (i - 1)))))"
      by blast
  next
    fix i assume "1 \<le> i \<and> i < length (body r)"
      and "\<not> md < timestamp (body r ! i) - timestamp (body r ! (i - 1))"
    with main [OF this(1) refl refl]
    show "\<bar>timestamp (q ! i) - timestamp (q ! (i - 1))
            - (timestamp (body r ! i) - timestamp (body r ! (i - 1)))\<bar>
          \<le> ulp_bound (timestamp (body r ! i) - timestamp (body r ! (i - 1)))
            + ulp_bound (timestamp (q ! (i - 1))
                + min md (round_to_double (timestamp (body r ! i) - timestamp (body r ! (i - 1)))))"
      by blast
  qed
qed

theorem quantize_gaps_rounded_witness:
  "(1::nat) \<le> 1 \<and> 1 < length (body late_output)
   \<and> timestamp (body (quantize late_output 1) ! 1)
       - timestamp (body (quantize late_output 1) ! (1 - 1)) \<le> 1 + 1 / 2 ^ 50
   \<and> (1::nat) \<le> 1 \<and> 1 < length (body slow_typing)
   \<and> \<not> 100 < timestamp (body slow_typing ! 1) - timestamp (body slow_typing ! (1 - 1))
   \<and> \<bar>timestamp (body (quantize slow_typing 100) ! 1)
        - timestamp (body (quantize slow_typing 100) ! (1 - 1))
        - (timestamp (body slow_typing ! 1) - timestamp (body slow_typing ! (1 - 1)))\<bar>
       \<le> 1 / 2 ^ 48"
proof -
  have a: "(1::nat) \<le> 1 \<and> 1 < length (body late_output)"
    and c: "(1::nat) \<le> 1 \<and> 1 < length (body slow_typing)"
    by (simp_all add: late_output_def slow_typing_def)
  have d: "\<not> 100 < timestamp (body slow_typing ! 1) - timestamp (body slow_typing ! (1 - 1))"
    by code_simp
  have tiny: "(1::real) / 2 ^ 1075 \<le> 1 / 2 ^ 53"
    by (simp add: field_simps power_increasing)
  have s1: "\<bar>timestamp (body (quantize late_output 1) ! (1 - 1))
             + min 1 (round_to_double (timestamp (body late_output ! 1)
                                        - timestamp (body late_output ! (1 - 1))))\<bar> \<le> 4"
    by code_simp
  have s2: "\<bar>timestamp (body (quantize slow_typing 100) ! (1 - 1))
             + min 100 (round_to_double (timestamp (body slow_typing ! 1)
                                          - timestamp (body slow_typing ! (1 - 1))))\<bar> \<le> 8"
    "\<bar>timestamp (body slow_typing ! 1) - timestamp (body slow_typing ! (1 - 1))\<bar> \<le> 8"
    by code_simp+
  from quantize_gaps_rounded [of late_output 1] a
  have "timestamp (body (quantize late_output 1) ! 1)
          - timestamp (body (quantize late_output 1) ! (1 - 1))
        \<le> 1 + ulp_bound (timestamp (body (quantize late_output 1) ! (1 - 1))
             + min 1 (round_to_double (timestamp (body late_output ! 1)
                                        - timestamp (body late_output ! (1 - 1)))))"
    unfolding Let_def by blast
  with s1 tiny have first: "timestamp (body (quantize late_output 1) ! 1)
       - timestamp (body (quantize late_output 1) ! (1 - 1)) \<le> 1 + 1 / 2 ^ 50"
    by (simp add: ulp_bound_def)
  from quantize_gaps_rounded [of slow_typing 100] c d
  have "\<bar>timestamp (body (quantize slow_typing 100) ! 1)
        - timestamp (body (quantize slow_typing 100) ! (1 - 1))
        - (timestamp (body slow_typing ! 1) - timestamp (body slow_typing ! (1 - 1)))\<bar>
       \<le> ulp_bound (timestamp (body slow_typing ! 1) - timestamp (body slow_typing ! (1 - 1)))
         + ulp_bound (timestamp (body (quantize slow_typing 100) ! (1 - 1))
             + min 100 (round_to_double (timestamp (body slow_typing ! 1)
                                          - timestamp (body slow_typing ! (1 - 1)))))"
    unfolding Let_def by blast
  with s2 tiny have second: "\<bar>timestamp (body (quantize slow_typing 100) ! 1)
        - timestamp (body (quantize slow_typing 100) ! (1 - 1))
        - (timestamp (body slow_typing ! 1) - timestamp (body slow_typing ! (1 - 1)))\<bar>
       \<le> 1 / 2 ^ 48"
    by (simp add: ulp_bound_def)
  from a c d first second show ?thesis
    by (intro conjI) simp_all
qed

section \<open>parse\_ranges\_to\_indices\<close>

lemma bisect_left_loop_invariant:
  "sorted a \<Longrightarrow> lo \<le> hi \<Longrightarrow> hi \<le> length a \<Longrightarrow>
   \<forall>j<lo. a ! j < x \<Longrightarrow> \<forall>j. hi \<le> j \<and> j < length a \<longrightarrow> x \<le> a ! j \<Longrightarrow>
   bisect_left_loop a x lo hi \<le> length a
   \<and> (\<forall>j<bisect_left_loop a x lo hi. a ! j < x)
   \<and> (\<forall>j. bisect_left_loop a x lo hi \<le> j \<and> j < length a \<longrightarrow> x \<le> a ! j)"
proof (induction a x lo hi rule: bisect_left_loop.induct)
  case (1 a x lo hi)
  show ?case
  proof (cases "lo < hi")
    case False
    then have "bisect_left_loop a x lo hi = lo"
      by (subst bisect_left_loop.simps) simp
    moreover from False "1.prems" have "lo = hi" by simp
    ultimately show ?thesis
      using "1.prems" by simp
  next
    case True
    define mid where "mid = (lo + hi) div 2"
    have mid: "lo \<le> mid" "mid < hi" "mid < length a"
      using True "1.prems" by (auto simp: mid_def)
    show ?thesis
    proof (cases "a ! mid < x")
      case below: True
      have "\<forall>j<mid + 1. a ! j < x"
      proof (intro allI impI)
        fix j assume "j < mid + 1"
        then have "j \<le> mid" by simp
        then have "a ! j \<le> a ! mid"
          using \<open>sorted a\<close> mid by (simp add: sorted_nth_mono)
        with below show "a ! j < x" by simp
      qed
      with "1.IH"(1) [OF True] below "1.prems" mid
      have "bisect_left_loop a x (mid + 1) hi \<le> length a
         \<and> (\<forall>j<bisect_left_loop a x (mid + 1) hi. a ! j < x)
         \<and> (\<forall>j. bisect_left_loop a x (mid + 1) hi \<le> j \<and> j < length a \<longrightarrow> x \<le> a ! j)"
        by (simp add: mid_def)
      moreover have "bisect_left_loop a x lo hi = bisect_left_loop a x (mid + 1) hi"
        using True below by (subst bisect_left_loop.simps) (simp add: mid_def)
      ultimately show ?thesis
        by simp
    next
      case above: False
      have "\<forall>j. mid \<le> j \<and> j < length a \<longrightarrow> x \<le> a ! j"
      proof (intro allI impI)
        fix j assume "mid \<le> j \<and> j < length a"
        then have "a ! mid \<le> a ! j"
          using \<open>sorted a\<close> by (simp add: sorted_nth_mono)
        with above show "x \<le> a ! j" by simp
      qed
      with "1.IH"(2) [OF True] above "1.prems" mid
      have "bisect_left_loop a x lo mid \<le> length a
         \<and> (\<forall>j<bisect_left_loop a x lo mid. a ! j < x)
         \<and> (\<forall>j. bisect_left_loop a x lo mid \<le> j \<and> j < length a \<longrightarrow> x \<le> a ! j)"
        by (simp add: mid_def)
      moreover have "bisect_left_loop a x lo hi = bisect_left_loop a x lo mid"
        using True above by (subst bisect_left_loop.simps) (simp add: mid_def)
      ultimately show ?thesis
        by simp
    qed
  qed
qed

lemma list_all_take_nth:
  "i \<le> length a \<Longrightarrow> list_all P (take i a) \<longleftrightarrow> (\<forall>j<i. P (a ! j))"
  by (simp add: list_all_length)

lemma list_all_drop_nth:
  "list_all P (drop i a) \<longleftrightarrow> (\<forall>j. i \<le> j \<and> j < length a \<longrightarrow> P (a ! j))"
proof
  assume L: "list_all P (drop i a)"
  show "\<forall>j. i \<le> j \<and> j < length a \<longrightarrow> P (a ! j)"
  proof (intro allI impI)
    fix j assume j: "i \<le> j \<and> j < length a"
    then have "j - i < length (drop i a)" by auto
    with L have "P (drop i a ! (j - i))" by (simp only: list_all_length)
    with j show "P (a ! j)" by simp
  qed
next
  assume R: "\<forall>j. i \<le> j \<and> j < length a \<longrightarrow> P (a ! j)"
  show "list_all P (drop i a)"
    unfolding list_all_length
  proof (intro allI impI)
    fix n assume "n < length (drop i a)"
    then have "i \<le> i + n \<and> i + n < length a" by simp
    with R have "P (a ! (i + n))" by blast
    then show "P (drop i a ! n)" using \<open>n < length (drop i a)\<close> by simp
  qed
qed

lemma leftmost_insertion_point_nth:
  "leftmost_insertion_point a x i \<longleftrightarrow>
     i \<le> length a \<and> (\<forall>j<i. a ! j < x) \<and> (\<forall>j. i \<le> j \<and> j < length a \<longrightarrow> x \<le> a ! j)"
  unfolding leftmost_insertion_point_def list_all_drop_nth
  using list_all_take_nth [of i a "\<lambda>t. t < x"] by blast

lemma bisect_left_leftmost:
  assumes "sorted a"
  shows "leftmost_insertion_point a x (bisect_left a x)"
  unfolding leftmost_insertion_point_nth bisect_left_def
  using assms by (intro bisect_left_loop_invariant) simp_all

lemma leftmost_insertion_point_unique:
  assumes "leftmost_insertion_point a x i" "leftmost_insertion_point a x j"
  shows "i = j"
proof (rule ccontr)
  assume "i \<noteq> j"
  then consider "i < j" | "j < i" by linarith
  then show False
  proof cases
    case 1
    from assms(2) 1 have "a ! i < x" unfolding leftmost_insertion_point_nth by blast
    moreover from assms 1 have "x \<le> a ! i" unfolding leftmost_insertion_point_nth
      by (metis le_refl less_le_trans)
    ultimately show False by simp
  next
    case 2
    from assms(1) 2 have "a ! j < x" unfolding leftmost_insertion_point_nth by blast
    moreover from assms 2 have "x \<le> a ! j" unfolding leftmost_insertion_point_nth
      by (metis le_refl less_le_trans)
    ultimately show False by simp
  qed
qed

text \<open>
  C8. On a chronologically sorted stream the result of \<open>parse_ranges_to_indices\<close> is the
  list of resolved pairs, one per time range and in the order of the ranges, sorted (stably)
  by start index. In each pair the start index is the leftmost insertion point of the start
  time (every earlier event is strictly before it, so an event at exactly the start time is
  at the start index or later) and the end index is the leftmost insertion point of the end
  time.
\<close>

theorem parse_ranges_to_indices_leftmost:
  assumes "sorted (map timestamp (body r))"
  shows "\<exists>resolved.
           length resolved = length ranges
         \<and> (\<forall>k<length ranges.
              leftmost_insertion_point (map timestamp (body r)) (fst (ranges ! k)) (fst (resolved ! k))
            \<and> leftmost_insertion_point (map timestamp (body r)) (snd (ranges ! k)) (snd (resolved ! k)))
         \<and> parse_ranges_to_indices r ranges = sort_key fst resolved
         \<and> mset (parse_ranges_to_indices r ranges) = mset resolved
         \<and> sorted (map fst (parse_ranges_to_indices r ranges))"
proof -
  define ts where "ts = map timestamp (body r)"
  define resolved where
    "resolved = map (\<lambda>(starttime, endtime). (bisect_left ts starttime, bisect_left ts endtime)) ranges"
  have len: "length resolved = length ranges"
    by (simp add: resolved_def)
  have res: "parse_ranges_to_indices r ranges = sort_key fst resolved"
    by (simp add: parse_ranges_to_indices_def Let_def resolved_def ts_def)
  have pts: "leftmost_insertion_point ts (fst (ranges ! k)) (fst (resolved ! k))
           \<and> leftmost_insertion_point ts (snd (ranges ! k)) (snd (resolved ! k))"
    if "k < length ranges" for k
  proof -
    obtain s e where se: "ranges ! k = (s, e)" by (cases "ranges ! k")
    with that have "resolved ! k = (bisect_left ts s, bisect_left ts e)"
      by (simp add: resolved_def)
    with se show ?thesis
      using assms by (simp add: ts_def bisect_left_leftmost)
  qed
  have "sorted (map fst (sort_key fst resolved))"
    by (rule sorted_sort_key)
  with len res pts show ?thesis
    unfolding ts_def [symmetric] by (intro exI [of _ resolved]) simp
qed

theorem parse_ranges_to_indices_leftmost_witness:
  "sorted (map timestamp (body fixture))
   \<and> parse_ranges_to_indices fixture [(3, 4), (1, 2)] = [(0, 1), (2, 5)]
   \<and> sorted (map fst (parse_ranges_to_indices fixture [(3, 4), (1, 2)]))"
proof -
  have h: "sorted (map timestamp (body fixture))"
    by code_simp
  from parse_ranges_to_indices_leftmost [OF h, of "[(3, 4), (1, 2)]"]
  have "sorted (map fst (parse_ranges_to_indices fixture [(3, 4), (1, 2)]))"
    by blast
  moreover have "parse_ranges_to_indices fixture [(3, 4), (1, 2)] = [(0, 1), (2, 5)]"
    by code_simp
  ultimately show ?thesis
    using h by simp
qed

section \<open>keep\<close>

text \<open>
  C2. The claim says that keep with one range retains the events from the start index
  through the end index and then renormalizes and quantizes. The assertion that opens the
  method is evaluated first and raises TypeError for every argument, so nothing is kept.
\<close>

theorem keep_raises_TypeError: "keep r ranges = Inl TypeError"
  by (simp add: keep_def py_len_bool_def)

section \<open>speed\<close>

lemma length_adjust_step [simp]: "length (adjust_step deltas idx b) = length b"
  by (simp add: adjust_step_def)

lemma length_fold_adjust [simp]: "length (fold (adjust_step deltas) is b) = length b"
  by (induction "is" arbitrary: b) simp_all




text \<open>
  Scaling a range never changes the number of deltas, so the rewriting loop finds a delta
  for every index it visits.
\<close>

lemma length_scale_range: "length (scale_range speedup idx_range deltas) = length deltas"
  by (cases idx_range) (auto simp: scale_range_def py_slice_assign_def py_slice_def)

lemma length_fold_scale_range:
  "length (fold (scale_range speedup) idx_ranges deltas) = length deltas"
  by (induction idx_ranges arbitrary: deltas) (simp_all add: length_scale_range)

lemma length_speed_deltas: "length (speed_deltas ts) = max 1 (length ts)"
  by (simp add: speed_deltas_def)





section \<open>write\<close>

lemma py_round7_decimal:
  "\<exists>k::int. py_round7 x = round_to_double (of_int k / 10 ^ 7)
            \<and> \<bar>of_int k / 10 ^ 7 - x\<bar> \<le> 1 / (2 * 10 ^ 7)"
proof -
  define k where "k = round_half_even (x * 10 ^ 7)"
  have "\<bar>of_int k - x * 10 ^ 7\<bar> \<le> 1 / 2"
    unfolding k_def by (rule round_half_even_near)
  moreover have "of_int k / 10 ^ 7 - x = (of_int k - x * 10 ^ 7) / 10 ^ 7"
    by (simp add: field_simps)
  ultimately have "\<bar>of_int k / 10 ^ 7 - x\<bar> \<le> 1 / (2 * 10 ^ 7)"
    by (simp add: abs_divide field_simps)
  moreover have "py_round7 x = round_to_double (of_int k / 10 ^ 7)"
    by (simp add: py_round7_def k_def)
  ultimately show ?thesis
    by blast
qed

text \<open>
  C10. \<open>write\<close> leaves the header, the number of events and every kind and payload as
  they were, and replaces the timestamp of every event of the body, whatever \<open>startidx\<close>
  and \<open>endidx\<close> are, by its rounding to 7 decimal places: the double nearest to a multiple
  of \<open>10\<^sup>-\<^sup>7\<close> that is within half of \<open>10\<^sup>-\<^sup>7\<close> of the old timestamp. What is written is
  the slice of the rounded body.
\<close>

theorem write_file_rounds_every_timestamp:
  "header (fst (write_file r startidx endidx)) = header r
   \<and> length (body (fst (write_file r startidx endidx))) = length (body r)
   \<and> (\<forall>i<length (body r).
         kind (body (fst (write_file r startidx endidx)) ! i) = kind (body r ! i)
         \<and> data (body (fst (write_file r startidx endidx)) ! i) = data (body r ! i)
         \<and> (\<exists>k::int. timestamp (body (fst (write_file r startidx endidx)) ! i)
                        = round_to_double (of_int k / 10 ^ 7)
                      \<and> \<bar>of_int k / 10 ^ 7 - timestamp (body r ! i)\<bar> \<le> 1 / (2 * 10 ^ 7)))
   \<and> snd (snd (write_file r startidx endidx))
       = py_slice_int startidx
           (case endidx of None \<Rightarrow> int (length (body r))
            | Some n \<Rightarrow> if n = 0 then int (length (body r)) else n)
           (body (fst (write_file r startidx endidx)))"
proof -
  have b: "body (fst (write_file r startidx endidx)) = map round_event (body r)"
    by (simp add: write_file_def Let_def)
  have ev: "kind (round_event e) = kind e \<and> data (round_event e) = data e
            \<and> (\<exists>k::int. timestamp (round_event e) = round_to_double (of_int k / 10 ^ 7)
                  \<and> \<bar>of_int k / 10 ^ 7 - timestamp e\<bar> \<le> 1 / (2 * 10 ^ 7))" for e
    using py_round7_decimal [of "timestamp e"] by (simp add: round_event_def)
  show ?thesis
    unfolding b
  proof (intro conjI allI impI)
    show "header (fst (write_file r startidx endidx)) = header r"
      by (simp add: write_file_def Let_def)
    show "length (map round_event (body r)) = length (body r)"
      by simp
    show "snd (snd (write_file r startidx endidx))
          = py_slice_int startidx
              (case endidx of None \<Rightarrow> int (length (body r))
               | Some n \<Rightarrow> if n = 0 then int (length (body r)) else n)
              (map round_event (body r))"
      by (simp add: write_file_def Let_def)
  next
    fix i assume "i < length (body r)"
    then show "kind (map round_event (body r) ! i) = kind (body r ! i)"
      using ev by simp
  next
    fix i assume "i < length (body r)"
    then show "data (map round_event (body r) ! i) = data (body r ! i)"
      using ev by simp
  next
    fix i assume "i < length (body r)"
    then show "\<exists>k::int. timestamp (map round_event (body r) ! i)
                  = round_to_double (of_int k / 10 ^ 7)
                \<and> \<bar>of_int k / 10 ^ 7 - timestamp (body r ! i)\<bar> \<le> 1 / (2 * 10 ^ 7)"
      using ev by simp
  qed
qed

theorem write_file_rounds_every_timestamp_witness:
  "(1::nat) < length (body unrounded)
   \<and> snd (snd (write_file unrounded 0 (Some 1)))
       = [\<lparr>timestamp = round_to_double 0.1234568, kind = ''o'', data = ''a''\<rparr>]
   \<and> timestamp (body unrounded ! 1) \<noteq> 2
   \<and> timestamp (body (fst (write_file unrounded 0 (Some 1))) ! 1) = 2
   \<and> (\<exists>k::int. timestamp (body (fst (write_file unrounded 0 (Some 1))) ! 1)
                  = round_to_double (of_int k / 10 ^ 7)
                \<and> \<bar>of_int k / 10 ^ 7 - timestamp (body unrounded ! 1)\<bar> \<le> 1 / (2 * 10 ^ 7))"
proof -
  have a: "(1::nat) < length (body unrounded)"
    by (simp add: unrounded_def)
  have b: "snd (snd (write_file unrounded 0 (Some 1)))
       = [\<lparr>timestamp = round_to_double 0.1234568, kind = ''o'', data = ''a''\<rparr>]"
    by code_simp
  have c: "timestamp (body unrounded ! 1) \<noteq> 2"
    "timestamp (body (fst (write_file unrounded 0 (Some 1))) ! 1) = 2"
    by code_simp+
  from write_file_rounds_every_timestamp [of unrounded 0 "Some 1"] a
  have "\<exists>k::int. timestamp (body (fst (write_file unrounded 0 (Some 1))) ! 1)
                  = round_to_double (of_int k / 10 ^ 7)
                \<and> \<bar>of_int k / 10 ^ 7 - timestamp (body unrounded ! 1)\<bar> \<le> 1 / (2 * 10 ^ 7)"
    by blast
  with a b c show ?thesis
    by (intro conjI)
qed

section \<open>excise\<close>

lemma subseq_drop_drop: "m \<le> n \<Longrightarrow> subseq (drop n xs) (drop m xs)"
proof -
  assume "m \<le> n"
  then have "drop m xs = take (n - m) (drop m xs) @ drop n xs"
    by (metis add_diff_inverse_nat append_take_drop_id drop_drop not_less add.commute)
  then show ?thesis
    by (metis list_emb_append2 subseq_order.order_refl)
qed

lemma fold_append_concat:
  "fold (\<lambda>i new_body. new_body @ g i) is init = init @ concat (map g is)"
  by (induction "is" arbitrary: init) simp_all

lemma concat_slices_between:
  "concat (map (\<lambda>i. py_slice (snd (idx_ranges ! i)) (fst (idx_ranges ! (i + 1))) b)
               [0..<length idx_ranges - 1])
   = between_ranges idx_ranges b"
proof (induction idx_ranges b rule: between_ranges.induct)
  case (1 s1 e1 s2 e2 rest b)
  have "[0..<length ((s1, e1) # (s2, e2) # rest) - 1] = 0 # map Suc [0..<length ((s2, e2) # rest) - 1]"
    by (simp add: upt_conv_Cons map_Suc_upt del: upt_Suc)
  then show ?case
    using "1.IH" by (simp add: comp_def del: upt_Suc)
qed simp_all

lemma excise_body_retained:
  "idx_ranges \<noteq> [] \<Longrightarrow> excise_body idx_ranges b = retained_segments idx_ranges b"
  unfolding excise_body_def retained_segments_def fold_append_concat concat_slices_between
  by (simp add: hd_conv_nth)

lemma slice_then_drop: "e \<le> s \<Longrightarrow> py_slice e s xs @ drop s xs = drop e xs"
proof -
  assume "e \<le> s"
  then have "drop e xs = drop e (take s xs @ drop s xs)" by simp
  also have "\<dots> = drop e (take s xs) @ drop (e - length (take s xs)) (drop s xs)"
    by (rule drop_append)
  also have "\<dots> = drop e (take s xs) @ drop s xs"
    using \<open>e \<le> s\<close> by (cases "s \<le> length xs") simp_all
  finally show ?thesis
    by (simp add: py_slice_def)
qed

lemma between_subseq:
  "sorted_nonoverlapping ((s, e) # rest) \<Longrightarrow>
   subseq (between_ranges ((s, e) # rest) b @ drop (snd (last ((s, e) # rest))) b) (drop e b)"
proof (induction rest arbitrary: s e)
  case Nil
  then show ?case by simp
next
  case (Cons p rest)
  obtain s2 e2 where p: "p = (s2, e2)" by (cases p)
  from Cons.prems p have ord: "s \<le> e" "e \<le> s2" "sorted_nonoverlapping ((s2, e2) # rest)"
    by simp_all
  then have s2e2: "s2 \<le> e2"
    by (cases rest) auto
  let ?tail = "between_ranges ((s2, e2) # rest) b @ drop (snd (last ((s2, e2) # rest))) b"
  have "subseq ?tail (drop e2 b)"
    using Cons.IH [OF ord(3)] .
  moreover have "subseq (drop e2 b) (drop s2 b)"
    using s2e2 by (rule subseq_drop_drop)
  ultimately have "subseq ?tail (drop s2 b)"
    by (rule subseq_order.order_trans)
  then have "subseq (py_slice e s2 b @ ?tail) (py_slice e s2 b @ drop s2 b)"
    by (intro list_emb_append_mono) simp_all
  then show ?case
    using ord(2) p by (simp add: slice_then_drop)
qed

lemma retained_segments_subseq:
  assumes "sorted_nonoverlapping idx_ranges" "idx_ranges \<noteq> []"
  shows "subseq (retained_segments idx_ranges b) b"
proof -
  from assms(2) obtain s e rest where idx: "idx_ranges = (s, e) # rest"
    by (cases idx_ranges) auto
  with assms(1) have se: "s \<le> e"
    by (cases rest) auto
  have "subseq (between_ranges idx_ranges b @ drop (snd (last idx_ranges)) b) (drop e b)"
    using between_subseq assms(1) unfolding idx .
  moreover have "subseq (drop e b) (drop s b)"
    using se by (rule subseq_drop_drop)
  ultimately have "subseq (between_ranges idx_ranges b @ drop (snd (last idx_ranges)) b) (drop s b)"
    by (rule subseq_order.order_trans)
  then have "subseq (take s b @ between_ranges idx_ranges b @ drop (snd (last idx_ranges)) b)
               (take s b @ drop s b)"
    by (intro list_emb_append_mono) simp_all
  then show ?thesis
    by (simp add: retained_segments_def idx)
qed

lemma parse_ranges_to_indices_empty:
  "parse_ranges_to_indices r ranges = [] \<longleftrightarrow> ranges = []"
  by (metis length_0_conv length_map length_sort parse_ranges_to_indices_def)

text \<open>
  For a non-empty list of ranges whose resolved index ranges are sorted and
  non-overlapping, the new body is the concatenation of the retained segments as the
  specification lists them, it is a subsequence of the old body (the retained events in
  their original order), and \<open>excise\<close> is \<open>renormalize\<close> followed by \<open>quantize\<close> with the
  default delay on that body. When at least one event is retained both succeed; when none
  is, the IndexError of \<open>renormalize\<close> is what \<open>excise\<close> returns.
\<close>

lemma excise_splices_in_order:
  assumes "ranges \<noteq> []"
    and "sorted_nonoverlapping (parse_ranges_to_indices r ranges)"
  shows "\<exists>new_body.
           new_body = retained_segments (parse_ranges_to_indices r ranges) (body r)
         \<and> subseq new_body (body r)
         \<and> excise r ranges =
             (case renormalize (r\<lparr>body := new_body\<rparr>) of
                Inl e \<Rightarrow> Inl e
              | Inr r' \<Rightarrow> Inr (quantize r' 1))
         \<and> (new_body \<noteq> [] \<longrightarrow>
              (\<exists>r'. renormalize (r\<lparr>body := new_body\<rparr>) = Inr r'
                  \<and> excise r ranges = Inr (quantize r' 1)))"
proof -
  let ?idx = "parse_ranges_to_indices r ranges"
  have ne: "?idx \<noteq> []"
    using assms(1) by (simp add: parse_ranges_to_indices_empty)
  have ex: "excise r ranges =
             (case renormalize (r\<lparr>body := retained_segments ?idx (body r)\<rparr>) of
                Inl e \<Rightarrow> Inl e
              | Inr r' \<Rightarrow> Inr (quantize r' 1))"
    using ne by (simp add: excise_def Let_def excise_body_retained)
  have sub: "subseq (retained_segments ?idx (body r)) (body r)"
    using assms(2) ne by (rule retained_segments_subseq)
  have ok: "\<exists>r'. renormalize (r\<lparr>body := retained_segments ?idx (body r)\<rparr>) = Inr r'
                \<and> excise r ranges = Inr (quantize r' 1)"
    if "retained_segments ?idx (body r) \<noteq> []"
  proof -
    from that obtain e es where "retained_segments ?idx (body r) = e # es"
      by (cases "retained_segments ?idx (body r)") auto
    then have "body (r\<lparr>body := retained_segments ?idx (body r)\<rparr>) = e # es"
      by simp
    from renormalize_nonempty [OF this] ex show ?thesis
      by simp
  qed
  from ex sub ok show ?thesis
    by blast
qed

lemma excise_fixture_two_ranges:
  "[(1, 2), (3, 4)] \<noteq> ([]::(real \<times> real) list)
   \<and> sorted_nonoverlapping (parse_ranges_to_indices fixture [(1, 2), (3, 4)])
   \<and> subseq [\<lparr>timestamp = 2, kind = ''o'', data = ''two''\<rparr>,
              \<lparr>timestamp = 4, kind = ''o'', data = ''three''\<rparr>] (body fixture)
   \<and> excise fixture [(1, 2), (3, 4)]
       = Inr (fixture\<lparr>body := [\<lparr>timestamp = 0, kind = ''o'', data = ''two''\<rparr>,
                               \<lparr>timestamp = 1, kind = ''o'', data = ''three''\<rparr>]\<rparr>)"
proof -
  have a: "[(1, 2), (3, 4)] \<noteq> ([]::(real \<times> real) list)"
    by simp
  have b: "sorted_nonoverlapping (parse_ranges_to_indices fixture [(1, 2), (3, 4)])"
    by code_simp
  have c: "retained_segments (parse_ranges_to_indices fixture [(1, 2), (3, 4)]) (body fixture)
           = [\<lparr>timestamp = 2, kind = ''o'', data = ''two''\<rparr>,
              \<lparr>timestamp = 4, kind = ''o'', data = ''three''\<rparr>]"
    by code_simp
  have d: "excise fixture [(1, 2), (3, 4)]
       = Inr (fixture\<lparr>body := [\<lparr>timestamp = 0, kind = ''o'', data = ''two''\<rparr>,
                               \<lparr>timestamp = 1, kind = ''o'', data = ''three''\<rparr>]\<rparr>)"
    by code_simp
  from excise_splices_in_order [OF a b]
  have "subseq (retained_segments (parse_ranges_to_indices fixture [(1, 2), (3, 4)]) (body fixture))
          (body fixture)"
    by blast
  with a b c d show ?thesis
    by simp
qed

text \<open>
  C5. The claim says that for every stream and every non-empty list of ranges that resolve
  to sorted, non-overlapping index ranges \<open>excise\<close> splices the retained segments and then
  renormalizes and quantizes. When the ranges cover every event (as the range 0 to 10 does
  on the fixture, or the default range of the command line, from 0 to infinity), nothing
  is retained, and \<open>renormalize\<close> raises IndexError on the empty body.
\<close>

theorem excise_whole_stream_raises:
  "[(0, 10)] \<noteq> ([]::(real \<times> real) list)
   \<and> sorted_nonoverlapping (parse_ranges_to_indices fixture [(0, 10)])
   \<and> retained_segments (parse_ranges_to_indices fixture [(0, 10)]) (body fixture) = []
   \<and> excise fixture [(0, 10)] = Inl IndexError"
  by code_simp

section \<open>del\_in\_word\<close>

lemma del_repeat_in_range:
  "k + n \<le> length xs \<Longrightarrow> del_repeat n k xs = Inr (take k xs @ drop (k + n) xs)"
proof (induction n arbitrary: xs)
  case 0
  then show ?case by simp
next
  case (Suc n)
  let ?ys = "take k xs @ drop (Suc k) xs"
  from Suc.prems have k: "k < length xs" by simp
  then have at: "del_at k xs = Inr ?ys"
    by (simp add: del_at_def)
  have len: "k + n \<le> length ?ys"
    using Suc.prems by simp
  have "del_repeat n k ?ys = Inr (take k ?ys @ drop (k + n) ?ys)"
    using Suc.IH [OF len] .
  also have "take k ?ys = take k xs"
    using k by simp
  also have "drop (k + n) ?ys = drop (k + Suc n) xs"
    using k by (simp add: add.commute)
  finally show ?case
    using at by simp
qed

lemma subseq_cut: "k \<le> i \<Longrightarrow> subseq (take k p @ drop i p) p"
proof -
  assume "k \<le> i"
  then have "subseq (drop i p) (drop k p)"
    by (rule subseq_drop_drop)
  then have "subseq (take k p @ drop i p) (take k p @ drop k p)"
    by (intro list_emb_append_mono) simp_all
  then show ?thesis
    by simp
qed

lemma single_characters_cut:
  "single_characters b \<Longrightarrow> single_characters (take k b @ drop i b)"
  unfolding single_characters_def list_all_iff
  by (auto dest: in_set_takeD in_set_dropD)

lemma del_in_word_loop_keeps_tail:
  "b = p @ tail \<Longrightarrow> single_characters p \<Longrightarrow> list_all word_event tail \<Longrightarrow>
   (i \<le> length p \<longrightarrow> word \<noteq> [] \<longrightarrow> (\<exists>k. word_start = Some k \<and> k + length word = i)) \<Longrightarrow>
   \<exists>p'. del_in_word_loop to_delete i word word_start b = Inr (p' @ tail) \<and> subseq p' p"
proof (induction to_delete i word word_start b arbitrary: p rule: del_in_word_loop.induct)
  case (1 to_delete i word word_start b)
  note IH = "1.IH" and prems = "1.prems"
  show ?case
  proof (cases "i < length b")
    case False
    then have "del_in_word_loop to_delete i word word_start b = Inr b"
      by (subst del_in_word_loop.simps) simp
    with prems(1) show ?thesis
      by auto
  next
    case inside: True
    show ?thesis
    proof (cases "kind (b ! i) = ''i'' \<and> isalnum (data (b ! i))")
      case we: True
      have step: "del_in_word_loop to_delete i word word_start b
                  = del_in_word_loop to_delete (i + 1) (word @ data (b ! i))
                      (if word = [] then Some i else word_start) b"
        by (subst del_in_word_loop.simps) (simp add: inside we)
      have "length (data (b ! i)) = 1" if "i < length p"
        using prems(1) prems(2) that we
        by (simp add: single_characters_def list_all_length word_event_def nth_append)
      then have inv: "i + 1 \<le> length p \<longrightarrow> word @ data (b ! i) \<noteq> [] \<longrightarrow>
                       (\<exists>k. (if word = [] then Some i else word_start) = Some k
                           \<and> k + length (word @ data (b ! i)) = i + 1)"
        using prems(4) by auto
      from IH(1) [OF inside we prems(1) prems(2) prems(3) inv] show ?thesis
        unfolding step .
    next
      case boundary: False
      have in_front: "i < length p"
      proof (rule ccontr)
        assume "\<not> i < length p"
        then have "b ! i = tail ! (i - length p)" "i - length p < length tail"
          using inside prems(1) by (auto simp: nth_append)
        then have "word_event (b ! i)"
          using prems(3) by (simp add: list_all_length)
        with boundary show False
          by (simp add: word_event_def)
      qed
      show ?thesis
      proof (cases "word = []")
        case True
        have step: "del_in_word_loop to_delete i word word_start b
                    = del_in_word_loop to_delete (i + 1) word word_start b"
          by (subst del_in_word_loop.simps) (simp add: inside boundary True)
        have inv: "i + 1 \<le> length p \<longrightarrow> word \<noteq> [] \<longrightarrow>
                     (\<exists>k. word_start = Some k \<and> k + length word = i + 1)"
          using True by simp
        from IH(4) [OF inside boundary _ prems(1) prems(2) prems(3) inv] True show ?thesis
          unfolding step by simp
      next
        case open_word: False
        show ?thesis
        proof (cases "word = to_delete")
          case False
          have step: "del_in_word_loop to_delete i word word_start b
                      = del_in_word_loop to_delete (i + 1) [] word_start b"
            by (subst del_in_word_loop.simps) (simp add: inside boundary open_word False)
          have inv: "i + 1 \<le> length p \<longrightarrow> ([]::string) \<noteq> [] \<longrightarrow>
                       (\<exists>k. word_start = Some k \<and> k + length ([]::string) = i + 1)"
            by simp
          from IH(3) [OF inside boundary open_word False prems(1) prems(2) prems(3) inv]
          show ?thesis
            unfolding step .
        next
          case matches: True
          from prems(4) open_word in_front obtain k where k: "word_start = Some k" "k + length word = i"
            by auto
          define p2 where "p2 = take k p @ drop i p"
          have del: "del_word_events word word_start b = Inr (take k b @ drop i b)"
            using k inside by (simp add: del_word_events_def del_repeat_in_range)
          have b2: "take k b @ drop i b = p2 @ tail"
            using k in_front prems(1) by (simp add: p2_def)
          have step: "del_in_word_loop to_delete i word word_start b
                      = del_in_word_loop to_delete (i + 1) [] word_start (take k b @ drop i b)"
            by (subst del_in_word_loop.simps)
              (simp add: inside boundary open_word matches [symmetric] del)
          have single: "single_characters p2"
            unfolding p2_def using prems(2) by (rule single_characters_cut)
          have inv: "i + 1 \<le> length p2 \<longrightarrow> ([]::string) \<noteq> [] \<longrightarrow>
                       (\<exists>k. word_start = Some k \<and> k + length ([]::string) = i + 1)"
            by simp
          from IH(2) [OF inside boundary open_word matches del b2 single prems(3) inv]
          obtain p' where p': "del_in_word_loop to_delete (i + 1) [] word_start (take k b @ drop i b)
                                = Inr (p' @ tail)" "subseq p' p2"
            by blast
          have "subseq p2 p"
            unfolding p2_def using k by (intro subseq_cut) simp
          with p'(2) have "subseq p' p"
            by (rule subseq_order.order_trans)
          with p'(1) show ?thesis
            unfolding step by blast
        qed
      qed
    qed
  qed
qed

text \<open>
  On a stream whose alphanumeric Input events carry one character each, \<open>del_in_word\<close>
  always succeeds, and what it leaves is a subsequence of the body: the events it keeps are
  unchanged and in their original order.
\<close>

lemma del_in_word_subseq:
  assumes "single_characters (body r)"
  shows "\<exists>b'. del_in_word r to_delete = Inr (r\<lparr>body := b'\<rparr>) \<and> subseq b' (body r)"
proof -
  have "0 \<le> length (body r) \<longrightarrow> ([]::string) \<noteq> [] \<longrightarrow>
          (\<exists>k. (None::nat option) = Some k \<and> k + length ([]::string) = 0)"
    by simp
  moreover have "body r = body r @ []" "list_all word_event []"
    by simp_all
  ultimately have "\<exists>p'. del_in_word_loop to_delete 0 [] None (body r) = Inr (p' @ [])
                      \<and> subseq p' (body r)"
    using assms by (intro del_in_word_loop_keeps_tail)
  then obtain b' where "del_in_word_loop to_delete 0 [] None (body r) = Inr b'" "subseq b' (body r)"
    by auto
  then show ?thesis
    by (auto simp: del_in_word_def)
qed

text \<open>
  Where the alphanumeric Input events before a final run of alphanumeric Input events
  carry one character each, the run is never deleted, whatever the target is:
  \<open>del_in_word\<close> succeeds, and its result is what it retains of the events before the run,
  in their order, followed by the whole run.
\<close>

lemma del_in_word_keeps_open_word:
  assumes "single_characters front"
    and "body r = front @ tail"
    and "list_all word_event tail"
  shows "\<exists>front'. del_in_word r to_delete = Inr (r\<lparr>body := front' @ tail\<rparr>)
                 \<and> subseq front' front"
proof -
  have "0 \<le> length front \<longrightarrow> ([]::string) \<noteq> [] \<longrightarrow>
          (\<exists>k. (None::nat option) = Some k \<and> k + length ([]::string) = 0)"
    by simp
  from del_in_word_loop_keeps_tail [OF assms(2) assms(1) assms(3) this, of to_delete]
  obtain front' where "del_in_word_loop to_delete 0 [] None (body r) = Inr (front' @ tail)"
    "subseq front' front"
    by blast
  then show ?thesis
    by (auto simp: del_in_word_def)
qed

text \<open>The test of tests.py: after deleting \<open>del\<close> the third event is \<open>three\<close>.\<close>

lemma test_delete_word:
  "del_in_word fixture ''del''
   = Inr (fixture\<lparr>body := [\<lparr>timestamp = 1, kind = ''o'', data = ''one''\<rparr>,
                           \<lparr>timestamp = 2, kind = ''o'', data = ''two''\<rparr>,
                           \<lparr>timestamp = 4, kind = ''o'', data = ''three''\<rparr>]\<rparr>)"
  by code_simp

text \<open>
  C1. The claim says that every closed run of single-character alphanumeric Input events
  that spells the target is removed. After a deletion the loop goes on at the next index
  of the shortened list, so as many events as the word was long are never looked at:
  of \<open>del\<close> typed twice with one space in between, the second occurrence, closed by the
  final space, stays in the stream.
\<close>

theorem del_in_word_skips_following_word:
  "del_in_word typed_del_twice ''del''
   = Inr (typed_del_twice\<lparr>body := [\<lparr>timestamp = round_to_double 1.3, kind = ''i'', data = '' ''\<rparr>,
                                   \<lparr>timestamp = 2, kind = ''i'', data = ''d''\<rparr>,
                                   \<lparr>timestamp = round_to_double 2.1, kind = ''i'', data = ''e''\<rparr>,
                                   \<lparr>timestamp = round_to_double 2.2, kind = ''i'', data = ''l''\<rparr>,
                                   \<lparr>timestamp = round_to_double 2.3, kind = ''i'', data = '' ''\<rparr>]\<rparr>)"
  by code_simp

text \<open>
  C9. The claim says that a run of alphanumeric Input events that is still open at the end
  of the stream is never deleted. The code deletes as many events as the matched word has
  characters, not as many as it has events: when the word \<open>del\<close> arrived as one Input
  event, the three deletions at its index remove that event, the space after it and the
  first event of the open word \<open>ab\<close> at the end of the stream.
\<close>

theorem del_in_word_deletes_into_open_word:
  "body pasted_del = take 2 (body pasted_del)
                     @ [\<lparr>timestamp = 3, kind = ''i'', data = ''a''\<rparr>,
                        \<lparr>timestamp = 4, kind = ''i'', data = ''b''\<rparr>]
   \<and> list_all word_event [\<lparr>timestamp = 3, kind = ''i'', data = ''a''\<rparr>,
                           \<lparr>timestamp = 4, kind = ''i'', data = ''b''\<rparr>]
   \<and> del_in_word pasted_del ''del''
       = Inr (pasted_del\<lparr>body := [\<lparr>timestamp = 4, kind = ''i'', data = ''b''\<rparr>]\<rparr>)"
  by code_simp

end
